theory Spec2Isabelle
  imports Main "HOL-Library.FSet" "HOL-Library.Product_Lexorder"
begin

section \<open>The generic 2D search tree of searchTree2D.h\<close>

text \<open>
  The header defines a class template \<^verbatim>\<open>SearchTree2D<Value, NodeCompare, Predicate>\<close> whose
  geometry is supplied by a \<^verbatim>\<open>SearchPredicate<Value, NodeCompare>\<close>. Values are kept in
  \<^verbatim>\<open>std::set<Value>\<close>, modelled as finite sets \<open>'v fset\<close>; the value type carries the
  linear order that \<^verbatim>\<open>std::set\<close> iterates in. Every method of the header instantiates a
  fresh \<^verbatim>\<open>Predicate predicate;\<close>, so the five virtual operations are functions of their
  arguments: they are the fields of the record \<open>SearchPredicate\<close>.
\<close>

subsection \<open>Region codes and the predicate interface\<close>

datatype RegionCode = UPPER_LEFT | UPPER_RIGHT | LOWER_LEFT | LOWER_RIGHT

definition g_minDataSize :: nat where
  "g_minDataSize = 3"

text \<open>
  \<^verbatim>\<open>buildQuadrantsFromData\<close> receives a map from region code to a mutable reference and
  writes the quadrants through the references. The model passes the referenced regions in
  and gets the written regions back.
\<close>

record ('v, 'r) SearchPredicate =
  nilCompare :: "'r"
  buildRegionFromData :: "'v fset \<Rightarrow> 'r"
  buildQuadrantsFromData :: "'r \<Rightarrow> 'v fset \<Rightarrow> (RegionCode \<Rightarrow> 'r) \<Rightarrow> (RegionCode \<Rightarrow> 'r)"
  satisfies :: "'r \<Rightarrow> 'v \<Rightarrow> bool"
  overlaps :: "'r \<Rightarrow> 'r \<Rightarrow> bool"

subsection \<open>Nodes\<close>

text \<open>
  A node owns its search space \<^verbatim>\<open>m_compare\<close>, the map \<^verbatim>\<open>m_mapRegions\<close> and the set
  \<^verbatim>\<open>m_data\<close>. Both constructors give \<^verbatim>\<open>m_mapRegions\<close> exactly the four keys of
  \<open>RegionCode\<close> and no method adds or erases a key, so the map is four nullable owning
  pointers, listed in the key order \<^verbatim>\<open>std::map\<close> iterates in (1, 2, 4, 8).
\<close>

datatype ('v, 'r) node =
  Node (m_compare: "'r")
       (upper_left: "('v, 'r) node option")
       (upper_right: "('v, 'r) node option")
       (lower_left: "('v, 'r) node option")
       (lower_right: "('v, 'r) node option")
       (m_data: "'v fset")

datatype error = NullDereference

fun m_mapRegions :: "('v, 'r) node \<Rightarrow> RegionCode \<Rightarrow> ('v, 'r) node option" where
  "m_mapRegions n UPPER_LEFT = upper_left n"
| "m_mapRegions n UPPER_RIGHT = upper_right n"
| "m_mapRegions n LOWER_LEFT = lower_left n"
| "m_mapRegions n LOWER_RIGHT = lower_right n"

definition Node_new :: "('v, 'r) SearchPredicate \<Rightarrow> ('v, 'r) node" where
  "Node_new P = Node (nilCompare P) None None None None {||}"

fun Node_copy :: "('v, 'r) node \<Rightarrow> ('v, 'r) node" where
  "Node_copy (Node cmp ul ur ll lr dat) =
     Node cmp (map_option Node_copy ul) (map_option Node_copy ur)
              (map_option Node_copy ll) (map_option Node_copy lr) dat"

fun hasChildren :: "('v, 'r) node \<Rightarrow> bool" where
  "hasChildren (Node cmp ul ur ll lr dat) =
     (ul \<noteq> None \<or> ur \<noteq> None \<or> ll \<noteq> None \<or> lr \<noteq> None)"

fun deleteChildren :: "('v, 'r) node \<Rightarrow> ('v, 'r) node" where
  "deleteChildren (Node cmp ul ur ll lr dat) = Node cmp None None None None dat"

fun setCompare :: "'r \<Rightarrow> ('v, 'r) node \<Rightarrow> ('v, 'r) node" where
  "setCompare compare (Node cmp ul ur ll lr dat) = Node compare ul ur ll lr dat"

fun set_m_data :: "'v fset \<Rightarrow> ('v, 'r) node \<Rightarrow> ('v, 'r) node" where
  "set_m_data vals (Node cmp ul ur ll lr dat) = Node cmp ul ur ll lr vals"

text \<open>
  \<^verbatim>\<open>Node::add\<close>: the loop visits the four slots; a present child whose search space
  satisfies the value receives it and sets \<^verbatim>\<open>wasAdded\<close>.
\<close>

definition accepts :: "('v, 'r) SearchPredicate \<Rightarrow> 'v \<Rightarrow> ('v, 'r) node option \<Rightarrow> bool" where
  "accepts P val region =
     (case region of None \<Rightarrow> False | Some child \<Rightarrow> satisfies P (m_compare child) val)"

fun Node_add :: "('v, 'r) SearchPredicate \<Rightarrow> 'v \<Rightarrow> ('v, 'r) node \<Rightarrow> ('v, 'r) node" where
  "Node_add P val (Node cmp ul ur ll lr dat) =
     (if hasChildren (Node cmp ul ur ll lr dat) then
        let wasAdded = (accepts P val ul \<or> accepts P val ur \<or>
                        accepts P val ll \<or> accepts P val lr)
        in Node cmp
             (map_option (\<lambda>child. if satisfies P (m_compare child) val
                                   then Node_add P val child else child) ul)
             (map_option (\<lambda>child. if satisfies P (m_compare child) val
                                   then Node_add P val child else child) ur)
             (map_option (\<lambda>child. if satisfies P (m_compare child) val
                                   then Node_add P val child else child) ll)
             (map_option (\<lambda>child. if satisfies P (m_compare child) val
                                   then Node_add P val child else child) lr)
             (if \<not> wasAdded then finsert val dat else dat)
      else Node cmp ul ur ll lr (finsert val dat))"

text \<open>\<^verbatim>\<open>Node::remove\<close>, \<^verbatim>\<open>Node::clear\<close>.\<close>

fun Node_remove :: "'v \<Rightarrow> ('v, 'r) node \<Rightarrow> ('v, 'r) node" where
  "Node_remove val (Node cmp ul ur ll lr dat) =
     (if hasChildren (Node cmp ul ur ll lr dat) then
        Node cmp (map_option (Node_remove val) ul) (map_option (Node_remove val) ur)
                 (map_option (Node_remove val) ll) (map_option (Node_remove val) lr)
                 (dat |-| {|val|})
      else Node cmp ul ur ll lr (dat |-| {|val|}))"

fun Node_clear :: "('v, 'r) node \<Rightarrow> ('v, 'r) node" where
  "Node_clear (Node cmp ul ur ll lr dat) =
     set_m_data {||}
       (if hasChildren (Node cmp ul ur ll lr dat) then
          deleteChildren
            (Node cmp (map_option Node_clear ul) (map_option Node_clear ur)
                      (map_option Node_clear ll) (map_option Node_clear lr) dat)
        else Node cmp ul ur ll lr dat)"

text \<open>\<^verbatim>\<open>Node::getNearbyValues\<close> and \<^verbatim>\<open>Node::getAllChildValues\<close>.\<close>

fun Node_getNearbyValues ::
  "('v, 'r) SearchPredicate \<Rightarrow> ('v, 'r) node \<Rightarrow> 'r \<Rightarrow> 'v fset" where
  "Node_getNearbyValues P (Node cmp ul ur ll lr dat) compare =
     (let nearbyVals =
            (if hasChildren (Node cmp ul ur ll lr dat) then
               (case ul of None \<Rightarrow> {||} | Some child \<Rightarrow> Node_getNearbyValues P child compare) |\<union>|
               (case ur of None \<Rightarrow> {||} | Some child \<Rightarrow> Node_getNearbyValues P child compare) |\<union>|
               (case ll of None \<Rightarrow> {||} | Some child \<Rightarrow> Node_getNearbyValues P child compare) |\<union>|
               (case lr of None \<Rightarrow> {||} | Some child \<Rightarrow> Node_getNearbyValues P child compare)
             else {||})
      in if overlaps P cmp compare then nearbyVals |\<union>| dat else nearbyVals)"

fun getAllChildValues :: "('v, 'r) node \<Rightarrow> 'v fset" where
  "getAllChildValues (Node cmp ul ur ll lr dat) =
     (let setData =
            (if hasChildren (Node cmp ul ur ll lr dat) then
               (case ul of None \<Rightarrow> {||} | Some child \<Rightarrow> getAllChildValues child) |\<union>|
               (case ur of None \<Rightarrow> {||} | Some child \<Rightarrow> getAllChildValues child) |\<union>|
               (case ll of None \<Rightarrow> {||} | Some child \<Rightarrow> getAllChildValues child) |\<union>|
               (case lr of None \<Rightarrow> {||} | Some child \<Rightarrow> getAllChildValues child)
             else {||})
      in setData |\<union>| dat)"

definition buildRootRegion :: "('v, 'r) SearchPredicate \<Rightarrow> ('v, 'r) node \<Rightarrow> ('v, 'r) node" where
  "buildRootRegion P n = setCompare (buildRegionFromData P (getAllChildValues n)) n"


subsection \<open>Rebalancing\<close>

text \<open>
  \<^verbatim>\<open>QuadMap\<close> maps each region code to a reference. On a node with children the
  references are the children's own \<^verbatim>\<open>m_compare\<close> fields, taken without a null test
  (\<^verbatim>\<open>region.second->m_compare\<close>): \<open>childCompares\<close> reads them and fails on a null slot,
  \<open>writeChildCompares\<close> is what the predicate's writes through them leave behind.
\<close>

definition quadMap :: "'r \<Rightarrow> 'r \<Rightarrow> 'r \<Rightarrow> 'r \<Rightarrow> RegionCode \<Rightarrow> 'r" where
  "quadMap ulComp urComp llComp lrComp code =
     (case code of UPPER_LEFT \<Rightarrow> ulComp | UPPER_RIGHT \<Rightarrow> urComp
                 | LOWER_LEFT \<Rightarrow> llComp | LOWER_RIGHT \<Rightarrow> lrComp)"

fun childCompares :: "('v, 'r) node \<Rightarrow> error + (RegionCode \<Rightarrow> 'r)" where
  "childCompares (Node cmp (Some a) (Some b) (Some c) (Some d) dat) =
     Inr (quadMap (m_compare a) (m_compare b) (m_compare c) (m_compare d))"
| "childCompares n = Inl NullDereference"

fun writeChildCompares :: "(RegionCode \<Rightarrow> 'r) \<Rightarrow> ('v, 'r) node \<Rightarrow> ('v, 'r) node" where
  "writeChildCompares mapQuads (Node cmp ul ur ll lr dat) =
     Node cmp (map_option (setCompare (mapQuads UPPER_LEFT)) ul)
              (map_option (setCompare (mapQuads UPPER_RIGHT)) ur)
              (map_option (setCompare (mapQuads LOWER_LEFT)) ll)
              (map_option (setCompare (mapQuads LOWER_RIGHT)) lr) dat"

text \<open>
  On a node without children the loop at lines 515-520 fills every null slot with a new
  node and sets the search space of each slot from the test quadrants.
\<close>

fun createChildren ::
  "('v, 'r) SearchPredicate \<Rightarrow> (RegionCode \<Rightarrow> 'r) \<Rightarrow> ('v, 'r) node \<Rightarrow> ('v, 'r) node" where
  "createChildren P mapQuads (Node cmp ul ur ll lr dat) =
     Node cmp
       (Some (setCompare (mapQuads UPPER_LEFT)
                (case ul of None \<Rightarrow> Node_new P | Some child \<Rightarrow> child)))
       (Some (setCompare (mapQuads UPPER_RIGHT)
                (case ur of None \<Rightarrow> Node_new P | Some child \<Rightarrow> child)))
       (Some (setCompare (mapQuads LOWER_LEFT)
                (case ll of None \<Rightarrow> Node_new P | Some child \<Rightarrow> child)))
       (Some (setCompare (mapQuads LOWER_RIGHT)
                (case lr of None \<Rightarrow> Node_new P | Some child \<Rightarrow> child)))
       dat"

text \<open>
  \<^verbatim>\<open>shouldSubdivide\<close>: the nested loops with their two \<^verbatim>\<open>break\<close>s leave
  \<^verbatim>\<open>inAllRegions\<close> true exactly when every value satisfies every quadrant.
\<close>

definition shouldSubdivide ::
  "('v, 'r) SearchPredicate \<Rightarrow> 'v fset \<Rightarrow> (RegionCode \<Rightarrow> 'r) \<Rightarrow> bool" where
  "shouldSubdivide P vecVals mapQuads =
     (let inAllRegions =
        fBall vecVals (\<lambda>val. list_all (\<lambda>quad. satisfies P (mapQuads quad) val)
                               [UPPER_LEFT, UPPER_RIGHT, LOWER_LEFT, LOWER_RIGHT])
      in \<not> inAllRegions)"

text \<open>
  The loop \<^verbatim>\<open>for (region : m_mapRegions) if (region.second) region.second->rebalance()\<close>,
  with the recursive call as a parameter. A call that does not return, or that fails,
  ends the loop.
\<close>

definition rebalanceRegion ::
  "(('v, 'r) node \<Rightarrow> (error + ('v, 'r) node) option) \<Rightarrow> ('v, 'r) node option
     \<Rightarrow> (error + ('v, 'r) node option) option" where
  "rebalanceRegion rec region =
     (case region of None \<Rightarrow> Some (Inr None)
      | Some child \<Rightarrow> Option.bind (rec child) (\<lambda>r. Some (map_sum id Some r)))"

definition rebalanceRegions ::
  "(('v, 'r) node \<Rightarrow> (error + ('v, 'r) node) option) \<Rightarrow> ('v, 'r) node
     \<Rightarrow> (error + ('v, 'r) node) option" where
  "rebalanceRegions rec n =
     Option.bind (rebalanceRegion rec (upper_left n))
       (\<lambda>r1. case r1 of Inl e \<Rightarrow> Some (Inl e) | Inr ul \<Rightarrow>
     Option.bind (rebalanceRegion rec (upper_right n))
       (\<lambda>r2. case r2 of Inl e \<Rightarrow> Some (Inl e) | Inr ur \<Rightarrow>
     Option.bind (rebalanceRegion rec (lower_left n))
       (\<lambda>r3. case r3 of Inl e \<Rightarrow> Some (Inl e) | Inr ll \<Rightarrow>
     Option.bind (rebalanceRegion rec (lower_right n))
       (\<lambda>r4. case r4 of Inl e \<Rightarrow> Some (Inl e) | Inr lr \<Rightarrow>
          Some (Inr (Node (m_compare n) ul ur ll lr (m_data n)))))))"

text \<open>
  The body of \<^verbatim>\<open>Node::rebalance\<close>, with the recursive call as the parameter \<open>rec\<close>.
  The values are re-added in the order of \<^verbatim>\<open>std::set\<close>. On a node with children the
  predicate writes the quadrants into the children's own search spaces before
  \<^verbatim>\<open>shouldSubdivide\<close> is asked.
\<close>

definition rebalanceBody ::
  "(('v::linorder, 'r) node \<Rightarrow> (error + ('v, 'r) node) option) \<Rightarrow> ('v, 'r) SearchPredicate
     \<Rightarrow> ('v, 'r) node \<Rightarrow> (error + ('v, 'r) node) option" where
  "rebalanceBody rec P n =
     (let setAllData = ffilter (satisfies P (m_compare n)) (getAllChildValues n);
          n1 = set_m_data {||} n
      in if hasChildren n1 then
           (if fcard setAllData \<le> g_minDataSize then
              Some (Inr (set_m_data setAllData (deleteChildren n1)))
            else
              (case childCompares n1 of
                 Inl e \<Rightarrow> Some (Inl e)
               | Inr refs \<Rightarrow>
                  let mapQuads = buildQuadrantsFromData P (m_compare n1) setAllData refs;
                      n2 = writeChildCompares mapQuads n1
                  in if shouldSubdivide P setAllData mapQuads then
                       rebalanceRegions rec
                         (fold (Node_add P) (sorted_list_of_fset setAllData) n2)
                     else Some (Inr (set_m_data setAllData (deleteChildren n2)))))
         else
           (if fcard setAllData \<le> g_minDataSize then
              Some (Inr (set_m_data setAllData n1))
            else
              let mapQuads = buildQuadrantsFromData P (m_compare n1) setAllData
                               (quadMap (nilCompare P) (nilCompare P)
                                        (nilCompare P) (nilCompare P))
              in if shouldSubdivide P setAllData mapQuads then
                   rebalanceRegions rec
                     (fold (Node_add P) (sorted_list_of_fset setAllData)
                        (createChildren P mapQuads n1))
                 else Some (Inr (set_m_data setAllData n1))))"

text \<open>
  Nothing bounds the depth of the recursion, so \<^verbatim>\<open>Node::rebalance\<close> is a partial
  function: \<open>None\<close> is a call that never returns, \<open>Some (Inl e)\<close> a call that fails,
  \<open>Some (Inr n')\<close> a call that leaves the node as \<open>n'\<close>. The three lemmas before it
  show that the body is monotone in the recursive call, which the definition needs.
\<close>

lemma rebalanceRegion_mono [partial_function_mono]:
  assumes "\<And>child. mono_option (\<lambda>f. R f child)"
  shows "mono_option (\<lambda>f. rebalanceRegion (R f) region)"
  unfolding rebalanceRegion_def
  by (cases region) (auto intro!: partial_function_mono assms)

lemma case_sum_mono:
  assumes "\<And>e. mono_option (\<lambda>f. A f e)" and "\<And>x. mono_option (\<lambda>f. B f x)"
  shows "mono_option (\<lambda>f. case s of Inl e \<Rightarrow> A f e | Inr x \<Rightarrow> B f x)"
  using assms by (cases s) auto

lemma rebalanceRegions_mono [partial_function_mono]:
  assumes "\<And>child. mono_option (\<lambda>f. R f child)"
  shows "mono_option (\<lambda>f. rebalanceRegions (R f) n)"
  unfolding rebalanceRegions_def
  by (intro partial_function_mono rebalanceRegion_mono assms case_sum_mono)

lemma rebalanceBody_mono [partial_function_mono]:
  assumes "\<And>child. mono_option (\<lambda>f. R f child)"
  shows "mono_option (\<lambda>f. rebalanceBody (R f) P n)"
  unfolding rebalanceBody_def Let_def
  by (intro partial_function_mono rebalanceRegions_mono assms case_sum_mono)

partial_function (option) Node_rebalance ::
  "('v::linorder, 'r) SearchPredicate \<Rightarrow> ('v, 'r) node \<Rightarrow> (error + ('v, 'r) node) option" where
  "Node_rebalance P n = rebalanceBody (Node_rebalance P) P n"

declare Node_rebalance.simps [code]

subsection \<open>The tree\<close>

record ('v, 'r) SearchTree2D =
  m_tree :: "('v, 'r) node"

definition SearchTree2D_new :: "('v, 'r) SearchPredicate \<Rightarrow> ('v, 'r) SearchTree2D" where
  "SearchTree2D_new P = \<lparr>m_tree = Node_new P\<rparr>"

definition SearchTree2D_copy :: "('v, 'r) SearchTree2D \<Rightarrow> ('v, 'r) SearchTree2D" where
  "SearchTree2D_copy other = \<lparr>m_tree = Node_copy (m_tree other)\<rparr>"

definition SearchTree2D_add ::
  "('v, 'r) SearchPredicate \<Rightarrow> 'v \<Rightarrow> ('v, 'r) SearchTree2D \<Rightarrow> ('v, 'r) SearchTree2D" where
  "SearchTree2D_add P val t = t\<lparr>m_tree := Node_add P val (m_tree t)\<rparr>"

definition SearchTree2D_remove ::
  "'v \<Rightarrow> ('v, 'r) SearchTree2D \<Rightarrow> ('v, 'r) SearchTree2D" where
  "SearchTree2D_remove val t = t\<lparr>m_tree := Node_remove val (m_tree t)\<rparr>"

definition SearchTree2D_clear :: "('v, 'r) SearchTree2D \<Rightarrow> ('v, 'r) SearchTree2D" where
  "SearchTree2D_clear t = t\<lparr>m_tree := Node_clear (m_tree t)\<rparr>"

definition SearchTree2D_getNearbyValues ::
  "('v, 'r) SearchPredicate \<Rightarrow> ('v, 'r) SearchTree2D \<Rightarrow> 'r \<Rightarrow> 'v fset" where
  "SearchTree2D_getNearbyValues P t compare = Node_getNearbyValues P (m_tree t) compare"

definition SearchTree2D_rebalance ::
  "('v::linorder, 'r) SearchPredicate \<Rightarrow> ('v, 'r) SearchTree2D
     \<Rightarrow> (error + ('v, 'r) SearchTree2D) option" where
  "SearchTree2D_rebalance P t =
     Option.bind (Node_rebalance P (buildRootRegion P (m_tree t)))
       (\<lambda>r. Some (map_sum id (\<lambda>n. t\<lparr>m_tree := n\<rparr>) r))"


subsection \<open>Vocabulary of the properties\<close>

text \<open>All nodes of a tree, the root first.\<close>

fun nodes :: "('v, 'r) node \<Rightarrow> ('v, 'r) node list" where
  "nodes (Node cmp ul ur ll lr dat) =
     Node cmp ul ur ll lr dat #
       (case ul of None \<Rightarrow> [] | Some child \<Rightarrow> nodes child) @
       (case ur of None \<Rightarrow> [] | Some child \<Rightarrow> nodes child) @
       (case ll of None \<Rightarrow> [] | Some child \<Rightarrow> nodes child) @
       (case lr of None \<Rightarrow> [] | Some child \<Rightarrow> nodes child)"

text \<open>
  What one call of \<^verbatim>\<open>Node::rebalance\<close> works with: the gathered values that satisfy the
  node's own search space (\<^verbatim>\<open>setAllData\<close> after the loop of lines 427-434), and the
  quadrants the predicate builds for them, from the children's search spaces on a node
  with children and from four \<^verbatim>\<open>nilCompare()\<close> on a node without.
\<close>

definition gathered :: "('v, 'r) SearchPredicate \<Rightarrow> ('v, 'r) node \<Rightarrow> 'v fset" where
  "gathered P n = ffilter (satisfies P (m_compare n)) (getAllChildValues n)"

fun allPresent :: "('v, 'r) node \<Rightarrow> bool" where
  "allPresent (Node cmp ul ur ll lr dat) =
     (ul \<noteq> None \<and> ur \<noteq> None \<and> ll \<noteq> None \<and> lr \<noteq> None)"

definition candidateQuads :: "('v, 'r) SearchPredicate \<Rightarrow> ('v, 'r) node \<Rightarrow> RegionCode \<Rightarrow> 'r" where
  "candidateQuads P n =
     buildQuadrantsFromData P (m_compare n) (gathered P n)
       (case childCompares n of
          Inr refs \<Rightarrow> refs
        | Inl e \<Rightarrow> quadMap (nilCompare P) (nilCompare P) (nilCompare P) (nilCompare P))"

text \<open>
  The node a subdividing call hands to the recursive calls: four children with the
  candidate quadrants as search spaces, and every gathered value re-added through
  \<^verbatim>\<open>Node::add\<close>.
\<close>

definition subdivided :: "('v::linorder, 'r) SearchPredicate \<Rightarrow> ('v, 'r) node \<Rightarrow> ('v, 'r) node" where
  "subdivided P n =
     fold (Node_add P) (sorted_list_of_fset (gathered P n))
       (createChildren P (candidateQuads P n) (set_m_data {||} n))"

text \<open>
  The outcome of the part of a call that precedes the recursive calls: the call fails,
  or the node is left without children, or it is left with four children that are still
  to be rebalanced.
\<close>

datatype ('v, 'r) outcome = Fails error | Done "('v, 'r) node" | Subdivides "('v, 'r) node"

definition rebalanceStep ::
  "('v::linorder, 'r) SearchPredicate \<Rightarrow> ('v, 'r) node \<Rightarrow> ('v, 'r) outcome" where
  "rebalanceStep P n =
     (if fcard (gathered P n) \<le> g_minDataSize then
        Done (Node (m_compare n) None None None None (gathered P n))
      else if hasChildren n \<and> \<not> allPresent n then Fails NullDereference
      else if shouldSubdivide P (gathered P n) (candidateQuads P n) then
        Subdivides (fold (Node_add P) (sorted_list_of_fset (gathered P n))
                      (createChildren P (candidateQuads P n) (set_m_data {||} n)))
      else Done (Node (m_compare n) None None None None (gathered P n)))"

text \<open>The shape the header calls a leaf or a branch, at every node of a tree.\<close>

fun wellFormed :: "('v, 'r) node \<Rightarrow> bool" where
  "wellFormed (Node cmp ul ur ll lr dat) =
     ((\<not> hasChildren (Node cmp ul ur ll lr dat) \<or> allPresent (Node cmp ul ur ll lr dat)) \<and>
      (case ul of None \<Rightarrow> True | Some child \<Rightarrow> wellFormed child) \<and>
      (case ur of None \<Rightarrow> True | Some child \<Rightarrow> wellFormed child) \<and>
      (case ll of None \<Rightarrow> True | Some child \<Rightarrow> wellFormed child) \<and>
      (case lr of None \<Rightarrow> True | Some child \<Rightarrow> wellFormed child))"

text \<open>
  A predicate whose quadrants accept only values that the split region accepts.
\<close>

definition nestedQuadrants :: "('v, 'r) SearchPredicate \<Rightarrow> bool" where
  "nestedQuadrants P =
     (\<forall>parentRegion values refs code v.
        satisfies P (buildQuadrantsFromData P parentRegion values refs code) v \<longrightarrow>
        satisfies P parentRegion v)"

text \<open>
  A predicate that treats the quadrant slots as outputs only: the quadrants it builds do
  not depend on the regions the slots held before.
\<close>

definition quadrantsFromScratch :: "('v, 'r) SearchPredicate \<Rightarrow> bool" where
  "quadrantsFromScratch P =
     (\<forall>parentRegion values refs refs'.
        buildQuadrantsFromData P parentRegion values refs =
        buildQuadrantsFromData P parentRegion values refs')"

text \<open>
  The public operations of a tree, and a sequence of them applied to a tree. A rebalance
  that fails or does not return ends the sequence.
\<close>

datatype 'v operation = Add 'v | Remove 'v | Clear | Rebalance | Copy

fun perform ::
  "('v::linorder, 'r) SearchPredicate \<Rightarrow> 'v operation \<Rightarrow> ('v, 'r) SearchTree2D
     \<Rightarrow> (error + ('v, 'r) SearchTree2D) option" where
  "perform P (Add val) t = Some (Inr (SearchTree2D_add P val t))"
| "perform P (Remove val) t = Some (Inr (SearchTree2D_remove val t))"
| "perform P Clear t = Some (Inr (SearchTree2D_clear t))"
| "perform P Rebalance t = SearchTree2D_rebalance P t"
| "perform P Copy t = Some (Inr (SearchTree2D_copy t))"

fun performAll ::
  "('v::linorder, 'r) SearchPredicate \<Rightarrow> 'v operation list \<Rightarrow> ('v, 'r) SearchTree2D
     \<Rightarrow> (error + ('v, 'r) SearchTree2D) option" where
  "performAll P [] t = Some (Inr t)"
| "performAll P (op # ops) t =
     (case perform P op t of
        None \<Rightarrow> None
      | Some (Inl e) \<Rightarrow> Some (Inl e)
      | Some (Inr t') \<Rightarrow> performAll P ops t')"

subsection \<open>A concrete predicate: points in closed integer rectangles\<close>

text \<open>
  A rectangle is its lower-left and upper-right corner. The root search space is the
  bounding box of the values, the quadrants meet at the integer midpoint.
\<close>

type_synonym point = "int \<times> int"
type_synonym rect = "point \<times> point"

definition rect_satisfies :: "rect \<Rightarrow> point \<Rightarrow> bool" where
  "rect_satisfies r p =
     (fst (fst r) \<le> fst p \<and> fst p \<le> fst (snd r) \<and>
      snd (fst r) \<le> snd p \<and> snd p \<le> snd (snd r))"

definition rect_overlaps :: "rect \<Rightarrow> rect \<Rightarrow> bool" where
  "rect_overlaps a b =
     (fst (fst a) \<le> fst (snd b) \<and> fst (fst b) \<le> fst (snd a) \<and>
      snd (fst a) \<le> snd (snd b) \<and> snd (fst b) \<le> snd (snd a))"

definition rect_bounds :: "point fset \<Rightarrow> rect" where
  "rect_bounds vs =
     (if vs = {||} then ((0, 0), (0, 0))
      else ((fMin (fst |`| vs), fMin (snd |`| vs)), (fMax (fst |`| vs), fMax (snd |`| vs))))"

definition rect_quadrants ::
  "rect \<Rightarrow> point fset \<Rightarrow> (RegionCode \<Rightarrow> rect) \<Rightarrow> RegionCode \<Rightarrow> rect" where
  "rect_quadrants r vs refs =
     (let x0 = fst (fst r); y0 = snd (fst r); x1 = fst (snd r); y1 = snd (snd r);
          mx = (x0 + x1) div 2; my = (y0 + y1) div 2
      in quadMap ((x0, my), (mx, y1)) ((mx, my), (x1, y1))
                 ((x0, y0), (mx, my)) ((mx, y0), (x1, my)))"

definition gridPredicate :: "(point, rect) SearchPredicate" where
  "gridPredicate =
     \<lparr>nilCompare = ((0, 0), (0, 0)), buildRegionFromData = rect_bounds,
      buildQuadrantsFromData = rect_quadrants, satisfies = rect_satisfies,
      overlaps = rect_overlaps\<rparr>"

text \<open>
  A branch over \<open>[0,10] \<times> [0,10]\<close> whose four leaves hold one point each, except that
  the point \<open>(5, 5)\<close> on the common corner is held by all four; \<open>(20, 20)\<close> is an orphan
  of the root.
\<close>

definition demoBranch :: "(point, rect) node" where
  "demoBranch =
     Node ((0, 0), (10, 10))
       (Some (Node ((0, 5), (5, 10)) None None None None {|(1, 9), (5, 5)|}))
       (Some (Node ((5, 5), (10, 10)) None None None None {|(9, 9), (5, 5)|}))
       (Some (Node ((0, 0), (5, 5)) None None None None {|(1, 1), (5, 5)|}))
       (Some (Node ((5, 0), (10, 5)) None None None None {|(9, 1), (5, 5)|}))
       {|(20, 20)|}"

definition emptyBranch :: "(point, rect) node" where
  "emptyBranch =
     Node ((0, 0), (10, 10))
       (Some (Node ((0, 5), (5, 10)) None None None None {||}))
       (Some (Node ((5, 5), (10, 10)) None None None None {||}))
       (Some (Node ((0, 0), (5, 5)) None None None None {||}))
       (Some (Node ((5, 0), (10, 5)) None None None None {||}))
       {||}"

text \<open>
  Five points in \<open>[0,10] \<times> [0,10]\<close>, and the four corners of the unit square, each
  as the root of a tree that was filled by \<^verbatim>\<open>add\<close> and whose root search space has
  been built.
\<close>

definition fivePoints :: "(point, rect) node" where
  "fivePoints =
     Node ((0, 0), (10, 10)) None None None None {|(0, 0), (10, 10), (3, 7), (8, 2), (5, 5)|}"

definition unitSquare :: "(point, rect) node" where
  "unitSquare =
     Node ((0, 0), (1, 1)) None None None None {|(1, 1), (1, 0), (0, 1), (0, 0)|}"

subsection \<open>A second concrete predicate: a fixed world and loose quadrants\<close>

text \<open>
  The root search space is always \<open>[0,100] \<times> [0,100]\<close>. The quadrants meet at the
  midpoint and each is grown by a margin of 10 on every side, as in a loose quadtree, so
  that a quadrant of the world reaches beyond the world.
\<close>

definition loose_quadrants ::
  "rect \<Rightarrow> point fset \<Rightarrow> (RegionCode \<Rightarrow> rect) \<Rightarrow> RegionCode \<Rightarrow> rect" where
  "loose_quadrants r vs refs =
     (let x0 = fst (fst r); y0 = snd (fst r); x1 = fst (snd r); y1 = snd (snd r);
          mx = (x0 + x1) div 2; my = (y0 + y1) div 2
      in quadMap ((x0 - 10, my - 10), (mx + 10, y1 + 10)) ((mx - 10, my - 10), (x1 + 10, y1 + 10))
                 ((x0 - 10, y0 - 10), (mx + 10, my + 10)) ((mx - 10, y0 - 10), (x1 + 10, my + 10)))"

definition loosePredicate :: "(point, rect) SearchPredicate" where
  "loosePredicate =
     \<lparr>nilCompare = ((0, 0), (0, 0)), buildRegionFromData = (\<lambda>values. ((0, 0), (100, 100))),
      buildQuadrantsFromData = loose_quadrants, satisfies = rect_satisfies,
      overlaps = rect_overlaps\<rparr>"

text \<open>
  The tree after four values were added, the tree was rebalanced and a value beyond the
  world was added: the loose upper-right quadrant took it.
\<close>

definition looseTree :: "(point, rect) SearchTree2D" where
  "looseTree =
     \<lparr>m_tree =
        Node ((0, 0), (100, 100))
          (Some (Node ((- 10, 40), (60, 110)) None None None None {|(10, 90)|}))
          (Some (Node ((40, 40), (110, 110)) None None None None {|(105, 105), (90, 90)|}))
          (Some (Node ((- 10, - 10), (60, 60)) None None None None {|(10, 10)|}))
          (Some (Node ((40, - 10), (110, 60)) None None None None {|(90, 10)|}))
          {||}\<rparr>"

subsection \<open>A third concrete predicate: half-open rectangles\<close>

text \<open>
  The bounding box and the midpoint quadrants of the first predicate, but a rectangle
  holds its lower and left edge only, so that the bounding box of a set of points does not
  hold the points on its upper and right edge.
\<close>

definition halfOpen_satisfies :: "rect \<Rightarrow> point \<Rightarrow> bool" where
  "halfOpen_satisfies r p =
     (fst (fst r) \<le> fst p \<and> fst p < fst (snd r) \<and>
      snd (fst r) \<le> snd p \<and> snd p < snd (snd r))"

definition halfOpenPredicate :: "(point, rect) SearchPredicate" where
  "halfOpenPredicate =
     \<lparr>nilCompare = ((0, 0), (0, 0)), buildRegionFromData = rect_bounds,
      buildQuadrantsFromData = rect_quadrants, satisfies = halfOpen_satisfies,
      overlaps = rect_overlaps\<rparr>"

subsection \<open>The object graph in a store\<close>

text \<open>
  The functions above compute with trees as values, so they cannot say whether two trees
  share a node. Here every \<^verbatim>\<open>Node\<close> is an object at an address: its three members are
  \<^verbatim>\<open>m_compare\<close>, the four \<^verbatim>\<open>unique_ptr\<close> of \<^verbatim>\<open>m_mapRegions\<close> (an address, or \<open>None\<close> for
  \<^verbatim>\<open>nullptr\<close>) and \<^verbatim>\<open>m_data\<close>. The store maps the addresses of the live objects to them;
  \<open>unused\<close> is the next address \<^verbatim>\<open>new\<close> hands out, and \<^verbatim>\<open>new\<close> returns memory with no
  object in it. A member function is a function of \<^verbatim>\<open>this\<close> and the store. Its result is
  \<open>None\<close> when the call does not return normally: it dereferences a null or dangling
  pointer, or it runs forever.
\<close>

type_synonym addr = nat

record ('v, 'r) object =
  o_compare :: "'r"
  o_regions :: "RegionCode \<Rightarrow> addr option"
  o_data :: "'v fset"

record ('v, 'r) store =
  objects :: "addr \<Rightarrow> ('v, 'r) object option"
  unused :: addr

definition regionCodes :: "RegionCode list" where
  "regionCodes = [UPPER_LEFT, UPPER_RIGHT, LOWER_LEFT, LOWER_RIGHT]"

definition o_hasChildren :: "('v, 'r) object \<Rightarrow> bool" where
  "o_hasChildren obj = list_ex (\<lambda>code. o_regions obj code \<noteq> None) regionCodes"


definition store_put :: "addr \<Rightarrow> ('v, 'r) object \<Rightarrow> ('v, 'r) store \<Rightarrow> ('v, 'r) store" where
  "store_put a obj s = s\<lparr>objects := (objects s)(a \<mapsto> obj)\<rparr>"

definition store_delete :: "addr \<Rightarrow> ('v, 'r) store \<Rightarrow> ('v, 'r) store" where
  "store_delete a s = s\<lparr>objects := (objects s)(a := None)\<rparr>"

definition modify ::
  "addr \<Rightarrow> (('v, 'r) object \<Rightarrow> ('v, 'r) object) \<Rightarrow> ('v, 'r) store \<Rightarrow> ('v, 'r) store option" where
  "modify a f s = Option.bind (objects s a) (\<lambda>obj. Some (store_put a (f obj) s))"

text \<open>
  \<^verbatim>\<open>for (auto&& region : m_mapRegions) if (region.second) ...\<close>: the loop over the children
  that are present, in the order of the keys of the \<^verbatim>\<open>std::map\<close>. The map itself is read once,
  when the loop starts.
\<close>

fun forRegions ::
  "(RegionCode \<Rightarrow> addr \<Rightarrow> 's \<Rightarrow> 's option) \<Rightarrow> (RegionCode \<Rightarrow> addr option) \<Rightarrow> RegionCode list
     \<Rightarrow> 's \<Rightarrow> 's option" where
  "forRegions body regions [] s = Some s"
| "forRegions body regions (code # codes) s =
     (case regions code of
        None \<Rightarrow> forRegions body regions codes s
      | Some child \<Rightarrow> Option.bind (body code child s) (forRegions body regions codes))"

lemma forRegions_mono [partial_function_mono]:
  assumes "\<And>code child s. mono_option (\<lambda>f. B f code child s)"
  shows "mono_option (\<lambda>f. forRegions (B f) regions codes s)"
proof (induction codes arbitrary: s)
  case Nil
  show ?case by (simp add: option.const_mono)
next
  case (Cons code codes)
  show ?case
    by (cases "regions code") (auto intro!: bind_mono assms Cons.IH)
qed

partial_function (option) Store_getAllChildValues ::
  "('v, 'r) store \<Rightarrow> addr \<Rightarrow> 'v fset option" where
  "Store_getAllChildValues s this =
     Option.bind (objects s this) (\<lambda>obj.
       Option.bind
         (if o_hasChildren obj then
            forRegions (\<lambda>code child setData.
                Option.bind (Store_getAllChildValues s child)
                  (\<lambda>childNodes. Some (setData |\<union>| childNodes)))
              (o_regions obj) regionCodes {||}
          else Some {||})
         (\<lambda>setData. Some (setData |\<union>| o_data obj)))"




text \<open>
  \<^verbatim>\<open>deleteChildren\<close>: \<^verbatim>\<open>reset(nullptr)\<close> runs the destructor of the child, which is
  \<^verbatim>\<open>clear()\<close>, frees the child and leaves \<^verbatim>\<open>nullptr\<close> in the map.
\<close>

definition deleteChildrenWith ::
  "(addr \<Rightarrow> ('v, 'r) store \<Rightarrow> ('v, 'r) store option) \<Rightarrow> addr \<Rightarrow> ('v, 'r) store
     \<Rightarrow> ('v, 'r) store option" where
  "deleteChildrenWith destroy this s =
     Option.bind (objects s this) (\<lambda>obj.
       forRegions (\<lambda>code child s1.
           Option.bind (destroy child s1) (\<lambda>s2.
             modify this (\<lambda>obj. obj\<lparr>o_regions := (o_regions obj)(code := None)\<rparr>)
               (store_delete child s2)))
         (o_regions obj) regionCodes s)"

lemma deleteChildrenWith_mono [partial_function_mono]:
  assumes "\<And>child s. mono_option (\<lambda>f. D f child s)"
  shows "mono_option (\<lambda>f. deleteChildrenWith (D f) this s)"
  unfolding deleteChildrenWith_def
  by (intro partial_function_mono assms)
















text \<open>
  A tree whose nodes carry their addresses. \<open>stores s ln\<close>: the objects of \<open>s\<close> at the
  addresses of \<open>ln\<close> are the nodes of \<open>ln\<close>, linked as in \<open>ln\<close>; \<open>erase\<close> forgets the
  addresses and \<open>footprint\<close> collects them.
\<close>

type_synonym ('v, 'r) located = "('v, addr \<times> 'r) node"

definition l_addr :: "('v, 'r) located \<Rightarrow> addr" where
  "l_addr ln = fst (m_compare ln)"

fun erase :: "('v, 'r) located \<Rightarrow> ('v, 'r) node" where
  "erase (Node ac ul ur ll lr dat) =
     Node (snd ac) (map_option erase ul) (map_option erase ur)
          (map_option erase ll) (map_option erase lr) dat"


fun stores :: "('v, 'r) store \<Rightarrow> ('v, 'r) located \<Rightarrow> bool" where
  "stores s (Node ac ul ur ll lr dat) =
     (objects s (fst ac) =
        Some \<lparr>o_compare = snd ac,
              o_regions = quadMap (map_option l_addr ul) (map_option l_addr ur)
                                  (map_option l_addr ll) (map_option l_addr lr),
              o_data = dat\<rparr> \<and>
      (case ul of None \<Rightarrow> True | Some c \<Rightarrow> stores s c) \<and>
      (case ur of None \<Rightarrow> True | Some c \<Rightarrow> stores s c) \<and>
      (case ll of None \<Rightarrow> True | Some c \<Rightarrow> stores s c) \<and>
      (case lr of None \<Rightarrow> True | Some c \<Rightarrow> stores s c))"







section \<open>Properties\<close>

subsection \<open>Queries, insertion, removal and clearing\<close>

lemma getNearbyValues_unfold:
  "Node_getNearbyValues P (Node cmp ul ur ll lr dat) r =
     (case ul of None \<Rightarrow> {||} | Some child \<Rightarrow> Node_getNearbyValues P child r) |\<union>|
     (case ur of None \<Rightarrow> {||} | Some child \<Rightarrow> Node_getNearbyValues P child r) |\<union>|
     (case ll of None \<Rightarrow> {||} | Some child \<Rightarrow> Node_getNearbyValues P child r) |\<union>|
     (case lr of None \<Rightarrow> {||} | Some child \<Rightarrow> Node_getNearbyValues P child r) |\<union>|
     (if overlaps P cmp r then dat else {||})"
  by (cases ul; cases ur; cases ll; cases lr; simp add: Let_def)

lemma getAllChildValues_unfold:
  "getAllChildValues (Node cmp ul ur ll lr dat) =
     (case ul of None \<Rightarrow> {||} | Some child \<Rightarrow> getAllChildValues child) |\<union>|
     (case ur of None \<Rightarrow> {||} | Some child \<Rightarrow> getAllChildValues child) |\<union>|
     (case ll of None \<Rightarrow> {||} | Some child \<Rightarrow> getAllChildValues child) |\<union>|
     (case lr of None \<Rightarrow> {||} | Some child \<Rightarrow> getAllChildValues child) |\<union>| dat"
  by (cases ul; cases ur; cases ll; cases lr; simp add: Let_def)

lemma getNearbyValues_nodes:
  "fset (Node_getNearbyValues P n r) =
     (\<Union>m \<in> {m \<in> set (nodes n). overlaps P (m_compare m) r}. fset (m_data m))"
proof (induction n)
  case (Node cmp ul ur ll lr dat)
  have region: "fset (case region of None \<Rightarrow> {||} | Some child \<Rightarrow> Node_getNearbyValues P child r) =
      (\<Union>m \<in> {m \<in> set (case region of None \<Rightarrow> [] | Some child \<Rightarrow> nodes child).
                 overlaps P (m_compare m) r}. fset (m_data m))"
    if "region \<in> {ul, ur, ll, lr}" for region
    using that Node.IH by (cases region) auto
  show ?case
    unfolding getNearbyValues_unfold nodes.simps union_fset
    by (subst region, simp)+ auto
qed

lemma getAllChildValues_nodes:
  "fset (getAllChildValues n) = (\<Union>m \<in> set (nodes n). fset (m_data m))"
proof (induction n)
  case (Node cmp ul ur ll lr dat)
  have region: "fset (case region of None \<Rightarrow> {||} | Some child \<Rightarrow> getAllChildValues child) =
      (\<Union>m \<in> set (case region of None \<Rightarrow> [] | Some child \<Rightarrow> nodes child). fset (m_data m))"
    if "region \<in> {ul, ur, ll, lr}" for region
    using that Node.IH by (cases region) auto
  show ?case
    unfolding getAllChildValues_unfold nodes.simps union_fset
    by (subst region, simp)+ auto
qed

lemma getNearbyValues_subset: "Node_getNearbyValues P n r |\<subseteq>| getAllChildValues n"
  by (rule fsubsetI) (use getNearbyValues_nodes[of P n r] getAllChildValues_nodes[of n] in auto)

lemma m_compare_add [simp]: "m_compare (Node_add P v n) = m_compare n"
  by (cases n) (simp add: Let_def)

lemma getAllChildValues_add [simp]:
  "getAllChildValues (Node_add P v n) = finsert v (getAllChildValues n)"
  by (induction n) (auto split: option.splits simp: Let_def accepts_def)

lemma m_compare_remove [simp]: "m_compare (Node_remove v n) = m_compare n"
  by (cases n) simp

lemma getAllChildValues_remove [simp]:
  "getAllChildValues (Node_remove v n) = getAllChildValues n |-| {|v|}"
  by (induction n) (auto split: option.splits simp: Let_def)

lemma remove_absent: "v |\<notin>| getAllChildValues n \<Longrightarrow> Node_remove v n = n"
  by (induction n) (auto split: option.splits simp: Let_def option.map_ident_strong)

lemma Node_clear_eq: "Node_clear n = Node (m_compare n) None None None None {||}"
  by (cases n) simp

lemma Node_copy_id [simp]: "Node_copy n = n"
  by (induction n) (auto intro!: option.map_ident_strong)

lemma accepts_iff:
  "(accepts P v (upper_left n) \<or> accepts P v (upper_right n) \<or>
    accepts P v (lower_left n) \<or> accepts P v (lower_right n)) =
   (\<exists>code child. m_mapRegions n code = Some child \<and> satisfies P (m_compare child) v)"
proof
  assume "accepts P v (upper_left n) \<or> accepts P v (upper_right n) \<or>
          accepts P v (lower_left n) \<or> accepts P v (lower_right n)"
  then show "\<exists>code child. m_mapRegions n code = Some child \<and> satisfies P (m_compare child) v"
    unfolding accepts_def
    by (auto split: option.splits intro: exI[of _ UPPER_LEFT] exI[of _ UPPER_RIGHT]
          exI[of _ LOWER_LEFT] exI[of _ LOWER_RIGHT])
next
  assume "\<exists>code child. m_mapRegions n code = Some child \<and> satisfies P (m_compare child) v"
  then obtain code child where "m_mapRegions n code = Some child" "satisfies P (m_compare child) v"
    by blast
  then show "accepts P v (upper_left n) \<or> accepts P v (upper_right n) \<or>
             accepts P v (lower_left n) \<or> accepts P v (lower_right n)"
    by (cases code) (auto simp: accepts_def)
qed

lemma add_regions:
  "hasChildren n \<Longrightarrow>
     m_mapRegions (Node_add P v n) code =
       map_option (\<lambda>child. if satisfies P (m_compare child) v then Node_add P v child else child)
         (m_mapRegions n code)"
  by (cases n; cases code) (simp_all add: Let_def)

lemma add_data:
  "hasChildren n \<Longrightarrow>
     m_data (Node_add P v n) =
       (if \<exists>code child. m_mapRegions n code = Some child \<and> satisfies P (m_compare child) v
        then m_data n else finsert v (m_data n))"
  unfolding accepts_iff[symmetric] by (cases n) (simp add: Let_def)

lemma add_leaf:
  "\<not> hasChildren n \<Longrightarrow> Node_add P v n = Node (m_compare n) None None None None (finsert v (m_data n))"
  by (cases n) simp

lemma Node_add_unfold:
  "Node_add P v (Node cmp ul ur ll lr dat) =
     Node cmp
       (map_option (\<lambda>child. if satisfies P (m_compare child) v then Node_add P v child else child) ul)
       (map_option (\<lambda>child. if satisfies P (m_compare child) v then Node_add P v child else child) ur)
       (map_option (\<lambda>child. if satisfies P (m_compare child) v then Node_add P v child else child) ll)
       (map_option (\<lambda>child. if satisfies P (m_compare child) v then Node_add P v child else child) lr)
       (if accepts P v ul \<or> accepts P v ur \<or> accepts P v ll \<or> accepts P v lr
        then dat else finsert v dat)"
  by (cases ul; cases ur; cases ll; cases lr; simp add: Let_def accepts_def)

lemma Node_remove_unfold:
  "Node_remove v (Node cmp ul ur ll lr dat) =
     Node cmp (map_option (Node_remove v) ul) (map_option (Node_remove v) ur)
              (map_option (Node_remove v) ll) (map_option (Node_remove v) lr) (dat |-| {|v|})"
  by (cases ul; cases ur; cases ll; cases lr; simp)

text \<open>
  C1. A query returns exactly the union of the local sets of the nodes whose search space
  overlaps the test region, and so the empty set on a tree that holds no value, such as a
  newly constructed one.
\<close>

theorem getNearbyValues_is_union_of_overlapping_nodes:
  "fset (SearchTree2D_getNearbyValues P t r) =
     (\<Union>n \<in> {n \<in> set (nodes (m_tree t)). overlaps P (m_compare n) r}. fset (m_data n)) \<and>
   (getAllChildValues (m_tree t) = {||} \<longrightarrow> SearchTree2D_getNearbyValues P t r = {||}) \<and>
   SearchTree2D_getNearbyValues P (SearchTree2D_new P) r = {||}"
proof (intro conjI impI)
  show "fset (SearchTree2D_getNearbyValues P t r) =
     (\<Union>n \<in> {n \<in> set (nodes (m_tree t)). overlaps P (m_compare n) r}. fset (m_data n))"
    unfolding SearchTree2D_getNearbyValues_def by (rule getNearbyValues_nodes)
  show "SearchTree2D_getNearbyValues P t r = {||}" if "getAllChildValues (m_tree t) = {||}"
    using getNearbyValues_subset[of P "m_tree t" r] that
    by (simp add: SearchTree2D_getNearbyValues_def)
  show "SearchTree2D_getNearbyValues P (SearchTree2D_new P) r = {||}"
    by (simp add: SearchTree2D_getNearbyValues_def SearchTree2D_new_def Node_new_def)
qed


theorem getNearbyValues_is_union_of_overlapping_nodes_witness:
  "getAllChildValues (m_tree \<lparr>m_tree = emptyBranch\<rparr>) = {||} \<and>
   SearchTree2D_getNearbyValues gridPredicate \<lparr>m_tree = emptyBranch\<rparr> ((0, 0), (4, 4)) = {||} \<and>
   SearchTree2D_getNearbyValues gridPredicate \<lparr>m_tree = demoBranch\<rparr> ((0, 0), (4, 4)) =
     {|(20, 20), (1, 1), (5, 5)|}"
proof -
  have e: "getAllChildValues (m_tree \<lparr>m_tree = emptyBranch\<rparr>) = {||}"
    by (simp add: emptyBranch_def)
  have q: "SearchTree2D_getNearbyValues gridPredicate \<lparr>m_tree = demoBranch\<rparr> ((0, 0), (4, 4)) =
     {|(20, 20), (1, 1), (5, 5)|}"
    by (simp add: SearchTree2D_getNearbyValues_def demoBranch_def gridPredicate_def rect_overlaps_def)
  from e q getNearbyValues_is_union_of_overlapping_nodes
      [of gridPredicate "\<lparr>m_tree = emptyBranch\<rparr>" "((0, 0), (4, 4))"]
  show ?thesis by blast
qed

text \<open>
  C2. On a node with children, \<^verbatim>\<open>add\<close> hands the value to every child whose search
  space satisfies it and leaves the other children alone; the value enters the node's own
  set exactly when no child took it. On a node without children the value always enters
  the node's own set.
\<close>

theorem add_distributes_to_satisfying_children:
  "(hasChildren n \<longrightarrow>
      (\<forall>code. m_mapRegions (Node_add P v n) code =
         map_option (\<lambda>child. if satisfies P (m_compare child) v then Node_add P v child else child)
           (m_mapRegions n code)) \<and>
      (\<forall>code child. m_mapRegions n code = Some child \<and> satisfies P (m_compare child) v \<longrightarrow>
         (\<exists>child'. m_mapRegions (Node_add P v n) code = Some child' \<and>
                   v |\<in>| getAllChildValues child')) \<and>
      m_data (Node_add P v n) =
        (if \<exists>code child. m_mapRegions n code = Some child \<and> satisfies P (m_compare child) v
         then m_data n else finsert v (m_data n))) \<and>
   (\<not> hasChildren n \<longrightarrow>
      Node_add P v n = Node (m_compare n) None None None None (finsert v (m_data n)))"
proof (intro conjI impI allI)
  fix code
  assume "hasChildren n"
  then show "m_mapRegions (Node_add P v n) code =
         map_option (\<lambda>child. if satisfies P (m_compare child) v then Node_add P v child else child)
           (m_mapRegions n code)"
    by (rule add_regions)
next
  fix code child
  assume h: "hasChildren n"
    and c: "m_mapRegions n code = Some child \<and> satisfies P (m_compare child) v"
  show "\<exists>child'. m_mapRegions (Node_add P v n) code = Some child' \<and> v |\<in>| getAllChildValues child'"
    unfolding add_regions[OF h] using c by simp
next
  assume "hasChildren n"
  then show "m_data (Node_add P v n) =
        (if \<exists>code child. m_mapRegions n code = Some child \<and> satisfies P (m_compare child) v
         then m_data n else finsert v (m_data n))"
    by (rule add_data)
next
  assume "\<not> hasChildren n"
  then show "Node_add P v n = Node (m_compare n) None None None None (finsert v (m_data n))"
    by (rule add_leaf)
qed

lemma emptyBranch_add_inside:
  "Node_add gridPredicate (5, 7) emptyBranch =
     Node ((0, 0), (10, 10))
       (Some (Node ((0, 5), (5, 10)) None None None None {|(5, 7)|}))
       (Some (Node ((5, 5), (10, 10)) None None None None {|(5, 7)|}))
       (Some (Node ((0, 0), (5, 5)) None None None None {||}))
       (Some (Node ((5, 0), (10, 5)) None None None None {||}))
       {||}"
  by (simp add: emptyBranch_def gridPredicate_def rect_satisfies_def accepts_def)

lemma emptyBranch_add_outside:
  "Node_add gridPredicate (20, 20) emptyBranch =
     Node ((0, 0), (10, 10))
       (Some (Node ((0, 5), (5, 10)) None None None None {||}))
       (Some (Node ((5, 5), (10, 10)) None None None None {||}))
       (Some (Node ((0, 0), (5, 5)) None None None None {||}))
       (Some (Node ((5, 0), (10, 5)) None None None None {||}))
       {|(20, 20)|}"
  by (simp add: emptyBranch_def gridPredicate_def rect_satisfies_def accepts_def)

theorem add_distributes_to_satisfying_children_witness:
  "hasChildren emptyBranch \<and>
   m_mapRegions emptyBranch UPPER_LEFT = Some (Node ((0, 5), (5, 10)) None None None None {||}) \<and>
   satisfies gridPredicate (m_compare (Node ((0, 5), (5, 10)) None None None None {||})) (5, 7) \<and>
   m_mapRegions (Node_add gridPredicate (5, 7) emptyBranch) UPPER_LEFT =
     Some (Node ((0, 5), (5, 10)) None None None None {|(5, 7)|}) \<and>
   m_mapRegions (Node_add gridPredicate (5, 7) emptyBranch) UPPER_RIGHT =
     Some (Node ((5, 5), (10, 10)) None None None None {|(5, 7)|}) \<and>
   m_data (Node_add gridPredicate (5, 7) emptyBranch) = {||} \<and>
   m_data (Node_add gridPredicate (20, 20) emptyBranch) = {|(20, 20)|} \<and>
   \<not> hasChildren (Node_new gridPredicate) \<and>
   Node_add gridPredicate (5, 7) (Node_new gridPredicate) =
     Node ((0, 0), (0, 0)) None None None None {|(5, 7)|}"
proof -
  have h: "hasChildren emptyBranch" by (simp add: emptyBranch_def)
  have l: "\<not> hasChildren (Node_new gridPredicate)" by (simp add: Node_new_def)
  have c: "m_mapRegions emptyBranch UPPER_LEFT = Some (Node ((0, 5), (5, 10)) None None None None {||})"
    by (simp add: emptyBranch_def)
  have s: "satisfies gridPredicate (m_compare (Node ((0, 5), (5, 10)) None None None None {||})) (5, 7)"
    by (simp add: gridPredicate_def rect_satisfies_def)
  have n: "Node_add gridPredicate (5, 7) (Node_new gridPredicate) =
     Node ((0, 0), (0, 0)) None None None None {|(5, 7)|}"
    using add_distributes_to_satisfying_children[of "Node_new gridPredicate" gridPredicate "(5, 7)"] l
    by (simp add: Node_new_def gridPredicate_def)
  show ?thesis
    using h l c s n by (simp add: emptyBranch_add_inside emptyBranch_add_outside)
qed

text \<open>
  C5. \<^verbatim>\<open>remove\<close> erases the value from every child and from the node's own set.
  Removing a value the tree does not hold leaves the tree as it is, and after a removal no
  query returns the value.
\<close>

theorem remove_erases_everywhere:
  "(\<forall>code. m_mapRegions (Node_remove v n) code = map_option (Node_remove v) (m_mapRegions n code)) \<and>
   m_data (Node_remove v n) = m_data n |-| {|v|} \<and>
   getAllChildValues (Node_remove v n) = getAllChildValues n |-| {|v|} \<and>
   (v |\<notin>| getAllChildValues n \<longrightarrow> Node_remove v n = n) \<and>
   v |\<notin>| Node_getNearbyValues P (Node_remove v n) r \<and>
   v |\<notin>| SearchTree2D_getNearbyValues P (SearchTree2D_remove v t) r"
proof (intro conjI allI impI)
  fix code
  show "m_mapRegions (Node_remove v n) code = map_option (Node_remove v) (m_mapRegions n code)"
    by (cases n; cases code) (simp_all only: Node_remove_unfold m_mapRegions.simps node.sel)
  show "m_data (Node_remove v n) = m_data n |-| {|v|}"
    by (cases n) (simp only: Node_remove_unfold node.sel)
  show "getAllChildValues (Node_remove v n) = getAllChildValues n |-| {|v|}"
    by simp
  show "Node_remove v n = n" if "v |\<notin>| getAllChildValues n"
    using that by (rule remove_absent)
  show "v |\<notin>| Node_getNearbyValues P (Node_remove v n) r" for n
    using getNearbyValues_subset[of P "Node_remove v n" r] by auto
  then show "v |\<notin>| SearchTree2D_getNearbyValues P (SearchTree2D_remove v t) r"
    by (simp add: SearchTree2D_getNearbyValues_def SearchTree2D_remove_def)
qed


theorem remove_erases_everywhere_witness:
  "(3, 3) |\<notin>| getAllChildValues demoBranch \<and> Node_remove (3, 3) demoBranch = demoBranch \<and>
   Node_remove (5, 5) demoBranch =
     Node ((0, 0), (10, 10))
       (Some (Node ((0, 5), (5, 10)) None None None None {|(1, 9)|}))
       (Some (Node ((5, 5), (10, 10)) None None None None {|(9, 9)|}))
       (Some (Node ((0, 0), (5, 5)) None None None None {|(1, 1)|}))
       (Some (Node ((5, 0), (10, 5)) None None None None {|(9, 1)|}))
       {|(20, 20)|}"
proof -
  have a: "(3, 3) |\<notin>| getAllChildValues demoBranch"
    by (simp add: demoBranch_def)
  have r: "Node_remove (5, 5) demoBranch =
     Node ((0, 0), (10, 10))
       (Some (Node ((0, 5), (5, 10)) None None None None {|(1, 9)|}))
       (Some (Node ((5, 5), (10, 10)) None None None None {|(9, 9)|}))
       (Some (Node ((0, 0), (5, 5)) None None None None {|(1, 1)|}))
       (Some (Node ((5, 0), (10, 5)) None None None None {|(9, 1)|}))
       {|(20, 20)|}"
    by (simp add: demoBranch_def finsert_fminus_if)
  from a r remove_erases_everywhere[of "(3, 3)" demoBranch]
  show ?thesis by blast
qed

text \<open>
  C8. \<^verbatim>\<open>clear\<close> leaves a single node without children and without values; no query
  tells the cleared tree from a newly constructed one: both answer with the empty set.
\<close>

theorem clear_yields_empty_leaf:
  "Node_clear n = Node (m_compare n) None None None None {||} \<and>
   \<not> hasChildren (m_tree (SearchTree2D_clear t)) \<and>
   m_data (m_tree (SearchTree2D_clear t)) = {||} \<and>
   nodes (m_tree (SearchTree2D_clear t)) = [m_tree (SearchTree2D_clear t)] \<and>
   SearchTree2D_getNearbyValues P (SearchTree2D_clear t) r = {||} \<and>
   SearchTree2D_getNearbyValues P (SearchTree2D_clear t) r =
     SearchTree2D_getNearbyValues P (SearchTree2D_new P) r"
  by (simp add: Node_clear_eq SearchTree2D_clear_def SearchTree2D_getNearbyValues_def
        SearchTree2D_new_def Node_new_def)

subsection \<open>One call of rebalance\<close>

lemma hasChildren_set_m_data [simp]: "hasChildren (set_m_data d n) = hasChildren n"
  by (cases n) simp

lemma allPresent_set_m_data [simp]: "allPresent (set_m_data d n) = allPresent n"
  by (cases n) simp

lemma m_compare_set_m_data [simp]: "m_compare (set_m_data d n) = m_compare n"
  by (cases n) simp

lemma childCompares_set_m_data [simp]: "childCompares (set_m_data d n) = childCompares n"
  by (cases n rule: childCompares.cases) simp_all

lemma childCompares_absent: "\<not> allPresent n \<Longrightarrow> childCompares n = Inl NullDereference"
  by (cases n rule: childCompares.cases) simp_all

lemma allPresent_hasChildren: "allPresent n \<Longrightarrow> hasChildren n"
  by (cases n) simp

lemma childCompares_present: "allPresent n \<Longrightarrow> \<exists>refs. childCompares n = Inr refs"
  by (cases n rule: childCompares.cases) simp_all

lemma writeChildCompares_present:
  "allPresent n \<Longrightarrow> writeChildCompares mapQuads n = createChildren P mapQuads n"
  by (cases n) auto

lemma leaf_shape: "\<not> hasChildren n \<Longrightarrow> n = Node (m_compare n) None None None None (m_data n)"
  by (cases n) simp

lemma set_m_data_deleteChildren:
  "set_m_data d (deleteChildren n) = Node (m_compare n) None None None None d"
  by (cases n) simp

lemma set_m_data_leaf:
  "\<not> hasChildren n \<Longrightarrow> set_m_data d n = Node (m_compare n) None None None None d"
  by (cases n) simp

lemma deleteChildren_writeChildCompares [simp]:
  "deleteChildren (writeChildCompares q n) = deleteChildren n"
  by (cases n) simp

lemma deleteChildren_set_m_data: "deleteChildren (set_m_data d n) = set_m_data d (deleteChildren n)"
  by (cases n) simp

lemma m_compare_deleteChildren [simp]: "m_compare (deleteChildren n) = m_compare n"
  by (cases n) simp

lemma m_compare_createChildren [simp]: "m_compare (createChildren P q n) = m_compare n"
  by (cases n) simp

lemma rebalanceBody_step:
  "rebalanceBody rec P n =
     (case rebalanceStep P n of
        Fails e \<Rightarrow> Some (Inl e)
      | Done n' \<Rightarrow> Some (Inr n')
      | Subdivides n2 \<Rightarrow> rebalanceRegions rec n2)"
proof (cases "hasChildren n")
  case False
  then have c: "childCompares n = Inl NullDereference"
    using allPresent_hasChildren childCompares_absent by blast
  show ?thesis
    using False
    by (simp add: rebalanceBody_def rebalanceStep_def gathered_def candidateQuads_def c
        Let_def set_m_data_leaf)
next
  case True
  show ?thesis
  proof (cases "allPresent n")
    case False
    with True show ?thesis
      by (simp add: rebalanceBody_def rebalanceStep_def gathered_def Let_def
          childCompares_absent set_m_data_deleteChildren)
  next
    case present: True
    then obtain refs where c: "childCompares n = Inr refs"
      using childCompares_present by blast
    show ?thesis
      using True present
      by (simp add: rebalanceBody_def rebalanceStep_def gathered_def candidateQuads_def c
          Let_def set_m_data_deleteChildren writeChildCompares_present[where P = P])
  qed
qed

lemma bind_sum_eq_Some:
  "Option.bind m (\<lambda>r. case r of Inl e \<Rightarrow> Some (Inl e) | Inr x \<Rightarrow> k x) = Some y \<longleftrightarrow>
     (\<exists>e. m = Some (Inl e) \<and> y = Inl e) \<or> (\<exists>x. m = Some (Inr x) \<and> k x = Some y)"
  by (cases m; cases "the m") auto

lemma rebalanceRegion_Inr_iff:
  "rebalanceRegion rec region = Some (Inr region') \<longleftrightarrow>
     (region = None \<and> region' = None) \<or>
     (\<exists>child child'. region = Some child \<and> region' = Some child' \<and> rec child = Some (Inr child'))"
proof (cases region)
  case None
  then show ?thesis by (auto simp: rebalanceRegion_def)
next
  case (Some child)
  then show ?thesis
    by (cases "rec child"; cases "the (rec child)") (auto simp: rebalanceRegion_def)
qed

lemma rebalanceRegion_Inl_iff:
  "rebalanceRegion rec region = Some (Inl e) \<longleftrightarrow>
     (\<exists>child. region = Some child \<and> rec child = Some (Inl e))"
proof (cases region)
  case None
  then show ?thesis by (simp add: rebalanceRegion_def)
next
  case (Some child)
  then show ?thesis
    by (cases "rec child"; cases "the (rec child)") (auto simp: rebalanceRegion_def)
qed

lemma rebalanceRegion_le:
  assumes "\<And>child y. rec child = Some y \<Longrightarrow> rec' child = Some y"
    and "rebalanceRegion rec region = Some r"
  shows "rebalanceRegion rec' region = Some r"
  using assms unfolding rebalanceRegion_def
  by (cases region) (auto simp: bind_eq_Some_conv)

lemma rebalanceRegions_le:
  assumes "\<And>child y. rec child = Some y \<Longrightarrow> rec' child = Some y"
    and "rebalanceRegions rec n = Some r"
  shows "rebalanceRegions rec' n = Some r"
proof -
  have le: "rebalanceRegion rec' region = Some y" if "rebalanceRegion rec region = Some y"
    for region y
    using assms(1) that by (rule rebalanceRegion_le)
  show ?thesis
    using assms(2) unfolding rebalanceRegions_def bind_sum_eq_Some
    by (auto simp: le)
qed

lemma rebalanceRegions_Inr_iff:
  "rebalanceRegions rec n = Some (Inr n') \<longleftrightarrow>
     (\<exists>ul ur ll lr.
        rebalanceRegion rec (upper_left n) = Some (Inr ul) \<and>
        rebalanceRegion rec (upper_right n) = Some (Inr ur) \<and>
        rebalanceRegion rec (lower_left n) = Some (Inr ll) \<and>
        rebalanceRegion rec (lower_right n) = Some (Inr lr) \<and>
        n' = Node (m_compare n) ul ur ll lr (m_data n))"
  unfolding rebalanceRegions_def bind_sum_eq_Some by auto

lemma rebalanceRegions_Inl:
  assumes "rebalanceRegions rec n = Some (Inl e)"
  shows "\<exists>code. rebalanceRegion rec (m_mapRegions n code) = Some (Inl e)"
proof -
  from assms have
    "rebalanceRegion rec (upper_left n) = Some (Inl e) \<or>
     rebalanceRegion rec (upper_right n) = Some (Inl e) \<or>
     rebalanceRegion rec (lower_left n) = Some (Inl e) \<or>
     rebalanceRegion rec (lower_right n) = Some (Inl e)"
    unfolding rebalanceRegions_def bind_sum_eq_Some by auto
  then show ?thesis
    by (metis m_mapRegions.simps)
qed


lemma Node_rebalance_step:
  "Node_rebalance P n =
     (case rebalanceStep P n of
        Fails e \<Rightarrow> Some (Inl e)
      | Done n' \<Rightarrow> Some (Inr n')
      | Subdivides n2 \<Rightarrow> rebalanceRegions (Node_rebalance P) n2)"
  by (subst Node_rebalance.simps) (rule rebalanceBody_step)

lemma restricted_call:
  "(case Node_rebalance P c of None \<Rightarrow> None | Some r' \<Rightarrow> if Q c r' then Some r' else None) = Some y
     \<longleftrightarrow> Node_rebalance P c = Some y \<and> Q c y"
  by (auto split: option.splits)

lemma rebalanceRegions_Inr_region:
  assumes "rebalanceRegions rec n = Some (Inr n')" and "m_mapRegions n code = Some c"
  shows "\<exists>c'. m_mapRegions n' code = Some c' \<and> rec c = Some (Inr c')"
proof -
  from assms(1) obtain ul ur ll lr where
    r: "rebalanceRegion rec (upper_left n) = Some (Inr ul)"
       "rebalanceRegion rec (upper_right n) = Some (Inr ur)"
       "rebalanceRegion rec (lower_left n) = Some (Inr ll)"
       "rebalanceRegion rec (lower_right n) = Some (Inr lr)"
    and n': "n' = Node (m_compare n) ul ur ll lr (m_data n)"
    unfolding rebalanceRegions_Inr_iff by blast
  show ?thesis
    using r assms(2) unfolding n' rebalanceRegion_Inr_iff by (cases code) simp_all
qed

text \<open>
  Induction over a call of \<^verbatim>\<open>Node::rebalance\<close> that returns: the call ends before
  any recursive call, or all four recursive calls returned a node, or one of them failed.
\<close>

lemma Node_rebalance_induct [consumes 1, case_names Fails Done Subdivides SubdividesFails]:
  assumes run: "Node_rebalance P n = Some r"
    and fails: "\<And>n e. rebalanceStep P n = Fails e \<Longrightarrow> Q n (Inl e)"
    and finished: "\<And>n n'. rebalanceStep P n = Done n' \<Longrightarrow> Q n (Inr n')"
    and subdivides: "\<And>n n2 n'. rebalanceStep P n = Subdivides n2 \<Longrightarrow>
        rebalanceRegions (Node_rebalance P) n2 = Some (Inr n') \<Longrightarrow>
        (\<And>code c. m_mapRegions n2 code = Some c \<Longrightarrow>
           \<exists>c'. m_mapRegions n' code = Some c' \<and> Node_rebalance P c = Some (Inr c') \<and>
                Q c (Inr c')) \<Longrightarrow>
        Q n (Inr n')"
    and subdivides_fails: "\<And>n n2 code c e. rebalanceStep P n = Subdivides n2 \<Longrightarrow>
        m_mapRegions n2 code = Some c \<Longrightarrow> Node_rebalance P c = Some (Inl e) \<Longrightarrow>
        Q c (Inl e) \<Longrightarrow> Q n (Inl e)"
  shows "Q n r"
proof -
  let ?g = "\<lambda>child. case Node_rebalance P child of None \<Rightarrow> None
                    | Some r' \<Rightarrow> if Q child r' then Some r' else None"
  have "fst (P, n) = P \<longrightarrow> Q (snd (P, n)) r \<and> Node_rebalance P (snd (P, n)) = Some r"
  proof (rule Node_rebalance.raw_induct
      [where Pa = "\<lambda>x y. fst x = P \<longrightarrow> Q (snd x) y \<and> Node_rebalance P (snd x) = Some y",
        OF _ run])
    fix f P' n r
    assume 1: "\<And>P'' n y. f P'' n = Some y \<Longrightarrow>
                 fst (P'', n) = P \<longrightarrow> Q (snd (P'', n)) y \<and> Node_rebalance P (snd (P'', n)) = Some y"
      "rebalanceBody (f P') P' n = Some r"
    show "fst (P', n) = P \<longrightarrow> Q (snd (P', n)) r \<and> Node_rebalance P (snd (P', n)) = Some r"
    proof (intro impI)
      assume "fst (P', n) = P"
      then have P': "P' = P" by simp
      have ih: "Q child y \<and> Node_rebalance P child = Some y" if "f P child = Some y" for child y
        using 1(1)[OF that] by simp
      have body: "(case rebalanceStep P n of
          Fails e \<Rightarrow> Some (Inl e) | Done n' \<Rightarrow> Some (Inr n')
        | Subdivides n2 \<Rightarrow> rebalanceRegions (f P) n2) = Some r"
        using 1(2) unfolding P' rebalanceBody_step .
      show "Q (snd (P', n)) r \<and> Node_rebalance P (snd (P', n)) = Some r"
      proof (cases "rebalanceStep P n")
        case (Fails e)
        with body fails[OF Fails] show ?thesis
          by (simp add: Node_rebalance_step)
      next
        case (Done n')
        with body finished[OF Done] show ?thesis
          by (simp add: Node_rebalance_step)
      next
        case (Subdivides n2)
        with body have rr: "rebalanceRegions (f P) n2 = Some r" by simp
        have g: "rebalanceRegions ?g n2 = Some r"
          by (rule rebalanceRegions_le[OF _ rr]) (use ih in auto)
        have real: "rebalanceRegions (Node_rebalance P) n2 = Some r"
          by (rule rebalanceRegions_le[OF _ rr]) (use ih in auto)
        have "Q n r"
        proof (cases r)
          case (Inr n')
          show ?thesis
            unfolding Inr
          proof (rule subdivides[OF Subdivides real[unfolded Inr]])
            fix code c
            assume "m_mapRegions n2 code = Some c"
            from rebalanceRegions_Inr_region[OF g[unfolded Inr] this]
            show "\<exists>c'. m_mapRegions n' code = Some c' \<and> Node_rebalance P c = Some (Inr c') \<and>
                Q c (Inr c')"
              unfolding restricted_call .
          qed
        next
          case (Inl e)
          from rebalanceRegions_Inl[OF g[unfolded Inl]]
          obtain code c where "m_mapRegions n2 code = Some c" "?g c = Some (Inl e)"
            unfolding rebalanceRegion_Inl_iff by blast
          then show ?thesis
            unfolding Inl restricted_call
            using subdivides_fails[OF Subdivides] by blast
        qed
        with real show ?thesis
          using Subdivides by (simp add: Node_rebalance_step)
      qed
    qed
  qed
  then show ?thesis by simp
qed

lemma addTo_region_step:
  "map_option (\<lambda>c. fold (Node_add P) (filter (satisfies P (m_compare c)) vs) c)
     (map_option (\<lambda>child. if satisfies P (m_compare child) v then Node_add P v child else child) region) =
   map_option (\<lambda>c. fold (Node_add P) (filter (satisfies P (m_compare c)) (v # vs)) c) region"
  by (cases region) auto

lemma accepts_addTo [simp]:
  "accepts P w (map_option (\<lambda>child. if satisfies P (m_compare child) v then Node_add P v child else child) region) =
   accepts P w region"
  by (cases region) (auto simp: accepts_def)

lemma fold_add_unfold:
  "fold (Node_add P) vs (Node cmp ul ur ll lr dat) =
     Node cmp
       (map_option (\<lambda>c. fold (Node_add P) (filter (satisfies P (m_compare c)) vs) c) ul)
       (map_option (\<lambda>c. fold (Node_add P) (filter (satisfies P (m_compare c)) vs) c) ur)
       (map_option (\<lambda>c. fold (Node_add P) (filter (satisfies P (m_compare c)) vs) c) ll)
       (map_option (\<lambda>c. fold (Node_add P) (filter (satisfies P (m_compare c)) vs) c) lr)
       (dat |\<union>| fset_of_list (filter (\<lambda>v. \<not> (accepts P v ul \<or> accepts P v ur \<or>
                                                  accepts P v ll \<or> accepts P v lr)) vs))"
proof (induction vs arbitrary: ul ur ll lr dat)
  case Nil
  show ?case by (simp add: option.map_ident)
next
  case (Cons v vs)
  show ?case
    unfolding fold_simps Node_add_unfold Cons.IH addTo_region_step accepts_addTo
    by auto
qed

lemma m_compare_fold_add [simp]: "m_compare (fold (Node_add P) vs n) = m_compare n"
  by (induction vs arbitrary: n) simp_all

lemma getAllChildValues_fold_add [simp]:
  "getAllChildValues (fold (Node_add P) vs n) = getAllChildValues n |\<union>| fset_of_list vs"
  by (induction vs arbitrary: n) auto

lemma getAllChildValues_setCompare [simp]:
  "getAllChildValues (setCompare r n) = getAllChildValues n"
  by (cases n) (simp add: Let_def)

lemma m_compare_setCompare [simp]: "m_compare (setCompare r n) = r"
  by (cases n) simp

lemma accepts_Some [simp]: "accepts P v (Some c) = satisfies P (m_compare c) v"
  by (simp add: accepts_def)

text \<open>The node as the recursive calls find it.\<close>

lemma staged_regions:
  "m_mapRegions (fold (Node_add P) vs (createChildren P q (set_m_data {||} n))) code =
     Some (fold (Node_add P) (filter (satisfies P (q code)) vs)
             (setCompare (q code) (case m_mapRegions n code of None \<Rightarrow> Node_new P | Some c \<Rightarrow> c)))"
  by (cases n; cases code) (simp_all add: fold_add_unfold)

lemma staged_data:
  "m_data (fold (Node_add P) vs (createChildren P q (set_m_data {||} n))) =
     fset_of_list (filter (\<lambda>v. \<forall>code. \<not> satisfies P (q code) v) vs)"
proof -
  have "(\<forall>code. \<not> satisfies P (q code) v) =
        (\<not> (satisfies P (q UPPER_LEFT) v \<or> satisfies P (q UPPER_RIGHT) v \<or>
             satisfies P (q LOWER_LEFT) v \<or> satisfies P (q LOWER_RIGHT) v))" for v
    by (metis RegionCode.exhaust)
  then show ?thesis
    by (cases n) (simp add: fold_add_unfold)
qed

lemma values_by_region:
  "v |\<in>| getAllChildValues n \<longleftrightarrow>
     v |\<in>| m_data n \<or> (\<exists>code c. m_mapRegions n code = Some c \<and> v |\<in>| getAllChildValues c)"
proof (cases n)
  case (Node cmp ul ur ll lr dat)
  have "(\<exists>code c. m_mapRegions n code = Some c \<and> v |\<in>| getAllChildValues c) =
        (v |\<in>| (case ul of None \<Rightarrow> {||} | Some c \<Rightarrow> getAllChildValues c) \<or>
         v |\<in>| (case ur of None \<Rightarrow> {||} | Some c \<Rightarrow> getAllChildValues c) \<or>
         v |\<in>| (case ll of None \<Rightarrow> {||} | Some c \<Rightarrow> getAllChildValues c) \<or>
         v |\<in>| (case lr of None \<Rightarrow> {||} | Some c \<Rightarrow> getAllChildValues c))"
    (is "?L = ?R")
  proof
    assume ?L
    then obtain code c where "m_mapRegions n code = Some c" "v |\<in>| getAllChildValues c" by blast
    then show ?R unfolding Node by (cases code) simp_all
  next
    assume ?R
    then show ?L unfolding Node
      by (auto split: option.splits intro: exI[of _ UPPER_LEFT] exI[of _ UPPER_RIGHT]
          exI[of _ LOWER_LEFT] exI[of _ LOWER_RIGHT])
  qed
  then show ?thesis
    unfolding Node getAllChildValues_unfold by auto
qed

lemma rebalanceRegions_InrD:
  assumes "rebalanceRegions rec n = Some (Inr n')"
  shows "m_compare n' = m_compare n" and "m_data n' = m_data n"
    and "(m_mapRegions n code = None \<and> m_mapRegions n' code = None) \<or>
         (\<exists>c c'. m_mapRegions n code = Some c \<and> m_mapRegions n' code = Some c' \<and>
                  rec c = Some (Inr c'))"
proof -
  from assms obtain ul ur ll lr where
    r: "rebalanceRegion rec (upper_left n) = Some (Inr ul)"
       "rebalanceRegion rec (upper_right n) = Some (Inr ur)"
       "rebalanceRegion rec (lower_left n) = Some (Inr ll)"
       "rebalanceRegion rec (lower_right n) = Some (Inr lr)"
    and n': "n' = Node (m_compare n) ul ur ll lr (m_data n)"
    unfolding rebalanceRegions_Inr_iff by blast
  show "m_compare n' = m_compare n" "m_data n' = m_data n"
    by (simp_all add: n')
  show "(m_mapRegions n code = None \<and> m_mapRegions n' code = None) \<or>
         (\<exists>c c'. m_mapRegions n code = Some c \<and> m_mapRegions n' code = Some c' \<and>
                  rec c = Some (Inr c'))"
    using r unfolding n' rebalanceRegion_Inr_iff by (cases code) simp_all
qed

lemma rebalanceStep_Subdivides_iff:
  "rebalanceStep P n = Subdivides n2 \<longleftrightarrow>
     \<not> fcard (gathered P n) \<le> g_minDataSize \<and> (hasChildren n \<longrightarrow> allPresent n) \<and>
     shouldSubdivide P (gathered P n) (candidateQuads P n) \<and>
     n2 = fold (Node_add P) (sorted_list_of_fset (gathered P n))
            (createChildren P (candidateQuads P n) (set_m_data {||} n))"
  by (auto simp: rebalanceStep_def)

lemma rebalanceStep_Done_iff:
  "rebalanceStep P n = Done n' \<longleftrightarrow>
     (fcard (gathered P n) \<le> g_minDataSize \<or>
      (hasChildren n \<longrightarrow> allPresent n) \<and> \<not> shouldSubdivide P (gathered P n) (candidateQuads P n)) \<and>
     n' = Node (m_compare n) None None None None (gathered P n)"
  by (auto simp: rebalanceStep_def)

lemma rebalanceStep_Fails_iff:
  "rebalanceStep P n = Fails e \<longleftrightarrow>
     \<not> fcard (gathered P n) \<le> g_minDataSize \<and> hasChildren n \<and> \<not> allPresent n"
  by (cases e) (auto simp: rebalanceStep_def)

lemma getAllChildValues_Node_new [simp]: "getAllChildValues (Node_new P) = {||}"
  by (simp add: Node_new_def)

lemma region_values_subset:
  "getAllChildValues (case m_mapRegions n code of None \<Rightarrow> Node_new P | Some c \<Rightarrow> c) |\<subseteq>|
   getAllChildValues n"
  by (cases "m_mapRegions n code") (auto simp: values_by_region[of _ n])

lemma gathered_iff: "v |\<in>| gathered P n \<longleftrightarrow> v |\<in>| getAllChildValues n \<and> satisfies P (m_compare n) v"
  by (auto simp: gathered_def)

text \<open>The children a subdividing call hands to the recursive calls.\<close>

lemma staged_child:
  assumes "m_mapRegions (fold (Node_add P) (sorted_list_of_fset (gathered P n))
             (createChildren P q (set_m_data {||} n))) code = Some c"
  shows "m_compare c = q code"
    and "getAllChildValues c |\<subseteq>| getAllChildValues n"
    and "v |\<in>| gathered P n \<Longrightarrow> satisfies P (q code) v \<Longrightarrow> v |\<in>| getAllChildValues c"
    and "m_mapRegions n code = None \<Longrightarrow>
           c = Node (q code) None None None None (ffilter (satisfies P (q code)) (gathered P n))"
proof -
  let ?c = "fold (Node_add P) (filter (satisfies P (q code)) (sorted_list_of_fset (gathered P n)))
             (setCompare (q code) (case m_mapRegions n code of None \<Rightarrow> Node_new P | Some c \<Rightarrow> c))"
  have c: "c = ?c"
    using assms unfolding staged_regions by simp
  show "m_compare c = q code"
    unfolding c by simp
  show "getAllChildValues c |\<subseteq>| getAllChildValues n"
    unfolding c using region_values_subset[where n = n and code = code and P = P]
    by (auto simp: fset_of_list_elem gathered_iff)
  show "v |\<in>| getAllChildValues c" if "v |\<in>| gathered P n" "satisfies P (q code) v"
    unfolding c using that by (auto simp: fset_of_list_elem)
  show "c = Node (q code) None None None None (ffilter (satisfies P (q code)) (gathered P n))"
    if "m_mapRegions n code = None"
    unfolding c that by (simp add: Node_new_def fold_add_unfold accepts_def)
qed

lemma rebalance_result:
  assumes "Node_rebalance P n = Some r"
  shows "\<forall>n'. r = Inr n' \<longrightarrow>
           m_compare n' = m_compare n \<and> gathered P n |\<subseteq>| getAllChildValues n' \<and>
           getAllChildValues n' |\<subseteq>| getAllChildValues n"
  using assms
proof (induction rule: Node_rebalance_induct)
  case (Fails n e)
  show ?case by simp
next
  case (SubdividesFails n n2 code c e)
  show ?case by simp
next
  case (Done n n')
  then show ?case
    by (auto simp: rebalanceStep_Done_iff gathered_iff)
next
  case (Subdivides n n2 n')
  let ?V = "gathered P n"
  let ?vs = "sorted_list_of_fset ?V"
  let ?q = "candidateQuads P n"
  from Subdivides(1) have n2: "n2 = fold (Node_add P) ?vs (createChildren P ?q (set_m_data {||} n))"
    by (simp add: rebalanceStep_Subdivides_iff)
  note res = rebalanceRegions_InrD[OF Subdivides(2)]
  have cmp: "m_compare n' = m_compare n"
    using res(1) by (simp add: n2)
  have dat: "m_data n' = fset_of_list (filter (\<lambda>v. \<forall>code. \<not> satisfies P (?q code) v) ?vs)"
    using res(2) by (simp add: n2 staged_data)
  have present: "\<exists>c. m_mapRegions n2 code = Some c" for code
    unfolding n2 staged_regions by simp
  have upper: "getAllChildValues n' |\<subseteq>| getAllChildValues n"
  proof (rule fsubsetI)
    fix v assume "v |\<in>| getAllChildValues n'"
    then consider "v |\<in>| m_data n'"
      | code c' where "m_mapRegions n' code = Some c'" "v |\<in>| getAllChildValues c'"
      unfolding values_by_region[of v n'] by blast
    then show "v |\<in>| getAllChildValues n"
    proof cases
      case 1
      then show ?thesis by (auto simp: dat fset_of_list_elem gathered_iff)
    next
      case 2
      from present[of code] obtain c where c: "m_mapRegions n2 code = Some c" ..
      from Subdivides(3)[OF c] 2(1) have "getAllChildValues c' |\<subseteq>| getAllChildValues c"
        by auto
      with 2(2) staged_child(2)[OF c[unfolded n2]] show ?thesis by auto
    qed
  qed
  have lower: "?V |\<subseteq>| getAllChildValues n'"
  proof (rule fsubsetI)
    fix v assume v: "v |\<in>| ?V"
    show "v |\<in>| getAllChildValues n'"
    proof (cases "\<forall>code. \<not> satisfies P (?q code) v")
      case True
      with v have "v |\<in>| m_data n'" by (simp add: dat fset_of_list_elem)
      then show ?thesis by (simp add: values_by_region[of v n'])
    next
      case False
      then obtain code where s: "satisfies P (?q code) v" by blast
      from present[of code] obtain c where c: "m_mapRegions n2 code = Some c" ..
      from Subdivides(3)[OF c] obtain c' where
        c': "m_mapRegions n' code = Some c'" "gathered P c |\<subseteq>| getAllChildValues c'"
        by auto
      from staged_child(1,3)[OF c[unfolded n2]] v s have "v |\<in>| gathered P c"
        by (simp add: gathered_iff)
      with c' show ?thesis unfolding values_by_region[of v n'] by blast
    qed
  qed
  from cmp upper lower show ?case by simp
qed

lemma wellFormed_iff:
  "wellFormed n \<longleftrightarrow>
     (\<not> hasChildren n \<or> allPresent n) \<and>
     (\<forall>code c. m_mapRegions n code = Some c \<longrightarrow> wellFormed c)"
proof (cases n)
  case (Node cmp ul ur ll lr dat)
  have "(\<forall>code c. m_mapRegions n code = Some c \<longrightarrow> wellFormed c) =
        ((case ul of None \<Rightarrow> True | Some c \<Rightarrow> wellFormed c) \<and>
         (case ur of None \<Rightarrow> True | Some c \<Rightarrow> wellFormed c) \<and>
         (case ll of None \<Rightarrow> True | Some c \<Rightarrow> wellFormed c) \<and>
         (case lr of None \<Rightarrow> True | Some c \<Rightarrow> wellFormed c))"
    (is "?L = ?R")
  proof
    assume l: ?L
    show ?R
      using l[rule_format, of UPPER_LEFT] l[rule_format, of UPPER_RIGHT]
        l[rule_format, of LOWER_LEFT] l[rule_format, of LOWER_RIGHT]
      unfolding Node by (simp split: option.split)
  next
    assume r: ?R
    show ?L
    proof (intro allI impI)
      fix code c assume "m_mapRegions n code = Some c"
      with r show "wellFormed c" unfolding Node by (cases code) simp_all
    qed
  qed
  then show ?thesis unfolding Node by simp
qed

lemma hasChildren_iff: "hasChildren n \<longleftrightarrow> (\<exists>code. m_mapRegions n code \<noteq> None)"
proof (cases n)
  case (Node cmp ul ur ll lr dat)
  show ?thesis
  proof
    assume "hasChildren n"
    then show "\<exists>code. m_mapRegions n code \<noteq> None"
      unfolding Node
      by (auto intro: exI[of _ UPPER_LEFT] exI[of _ UPPER_RIGHT]
          exI[of _ LOWER_LEFT] exI[of _ LOWER_RIGHT])
  next
    assume "\<exists>code. m_mapRegions n code \<noteq> None"
    then obtain code where "m_mapRegions n code \<noteq> None" ..
    then show "hasChildren n" unfolding Node by (cases code) simp_all
  qed
qed

lemma allPresent_iff: "allPresent n \<longleftrightarrow> (\<forall>code. m_mapRegions n code \<noteq> None)"
proof (cases n)
  case (Node cmp ul ur ll lr dat)
  show ?thesis
  proof
    assume a: "allPresent n"
    show "\<forall>code. m_mapRegions n code \<noteq> None"
    proof
      fix code show "m_mapRegions n code \<noteq> None"
        using a unfolding Node by (cases code) simp_all
    qed
  next
    assume a: "\<forall>code. m_mapRegions n code \<noteq> None"
    show "allPresent n"
      using a[rule_format, of UPPER_LEFT] a[rule_format, of UPPER_RIGHT]
        a[rule_format, of LOWER_LEFT] a[rule_format, of LOWER_RIGHT]
      unfolding Node by simp
  qed
qed

lemma add_regions_always:
  "m_mapRegions (Node_add P v n) code =
     map_option (\<lambda>child. if satisfies P (m_compare child) v then Node_add P v child else child)
       (m_mapRegions n code)"
  by (cases n; cases code) (simp_all only: Node_add_unfold m_mapRegions.simps node.sel)

lemma remove_regions:
  "m_mapRegions (Node_remove v n) code = map_option (Node_remove v) (m_mapRegions n code)"
  by (cases n; cases code) (simp_all only: Node_remove_unfold m_mapRegions.simps node.sel)

lemma wellFormed_add: "wellFormed n \<Longrightarrow> wellFormed (Node_add P v n)"
proof (induction n)
  case (Node cmp ul ur ll lr dat)
  let ?n = "Node cmp ul ur ll lr dat"
  have ih: "wellFormed (Node_add P v c)" if "m_mapRegions ?n code = Some c" for code c
    using that Node.IH Node.prems
    by (cases code) (auto simp: wellFormed_iff[of c])
  have sub: "wellFormed c" if "m_mapRegions ?n code = Some c" for code c
    using that Node.prems wellFormed_iff[of ?n] by blast
  show ?case
    unfolding wellFormed_iff[of "Node_add P v ?n"] hasChildren_iff allPresent_iff add_regions_always
    using Node.prems[unfolded wellFormed_iff[of ?n] hasChildren_iff allPresent_iff] ih sub
    by (auto split: if_splits)
qed

lemma wellFormed_fold_add: "wellFormed n \<Longrightarrow> wellFormed (fold (Node_add P) vs n)"
  by (induction vs arbitrary: n) (simp_all add: wellFormed_add)

lemma wellFormed_remove: "wellFormed n \<Longrightarrow> wellFormed (Node_remove v n)"
proof (induction n)
  case (Node cmp ul ur ll lr dat)
  let ?n = "Node cmp ul ur ll lr dat"
  have ih: "wellFormed (Node_remove v c)" if "m_mapRegions ?n code = Some c" for code c
    using that Node.IH Node.prems
    by (cases code) (auto simp: wellFormed_iff[of c])
  show ?case
    unfolding wellFormed_iff[of "Node_remove v ?n"] hasChildren_iff allPresent_iff remove_regions
    using Node.prems[unfolded wellFormed_iff[of ?n] hasChildren_iff allPresent_iff] ih
    by auto
qed

lemma wellFormed_setCompare [simp]: "wellFormed (setCompare r n) = wellFormed n"
  by (cases n) simp

lemma wellFormed_leaf [simp]: "wellFormed (Node cmp None None None None dat)"
  by simp

lemma rebalance_wellFormed:
  assumes "Node_rebalance P n = Some r"
  shows "wellFormed n \<longrightarrow> (\<exists>n'. r = Inr n' \<and> wellFormed n')"
  using assms
proof (induction rule: Node_rebalance_induct)
  case (Fails n e)
  then show ?case
    by (auto simp: rebalanceStep_Fails_iff wellFormed_iff[of n])
next
  case (Done n n')
  then show ?case
    by (auto simp: rebalanceStep_Done_iff)
next
  case (Subdivides n n2 n')
  show ?case
  proof
    assume wf: "wellFormed n"
    from Subdivides(1) have n2: "n2 = fold (Node_add P) (sorted_list_of_fset (gathered P n))
        (createChildren P (candidateQuads P n) (set_m_data {||} n))"
      by (simp add: rebalanceStep_Subdivides_iff)
    have staged: "\<exists>c. m_mapRegions n2 code = Some c \<and> wellFormed c" for code
      unfolding n2 staged_regions using wf wellFormed_iff[of n]
      by (cases "m_mapRegions n code") (auto simp: wellFormed_fold_add Node_new_def)
    have "\<exists>c'. m_mapRegions n' code = Some c' \<and> wellFormed c'" for code
      using staged[of code] Subdivides(3)[of code] by auto
    then have "wellFormed n'"
      unfolding wellFormed_iff[of n'] allPresent_iff by (metis option.distinct(1) option.inject)
    then show "\<exists>n''. Inr n' = Inr n'' \<and> wellFormed n''" by simp
  qed
next
  case (SubdividesFails n n2 code c e)
  show ?case
  proof
    assume wf: "wellFormed n"
    from SubdividesFails(1) have n2: "n2 = fold (Node_add P) (sorted_list_of_fset (gathered P n))
        (createChildren P (candidateQuads P n) (set_m_data {||} n))"
      by (simp add: rebalanceStep_Subdivides_iff)
    have "wellFormed c"
      using SubdividesFails(2) unfolding n2 staged_regions using wf wellFormed_iff[of n]
      by (cases "m_mapRegions n code") (auto simp: wellFormed_fold_add Node_new_def)
    with SubdividesFails(4) show "\<exists>n'. Inl e = Inr n' \<and> wellFormed n'" by simp
  qed
qed

lemma wellFormed_nodes:
  "wellFormed n \<longleftrightarrow> (\<forall>m \<in> set (nodes n). \<not> hasChildren m \<or> allPresent m)"
proof (induction n)
  case (Node cmp ul ur ll lr dat)
  have region: "(case region of None \<Rightarrow> True | Some c \<Rightarrow> wellFormed c) =
      (\<forall>m \<in> set (case region of None \<Rightarrow> [] | Some c \<Rightarrow> nodes c). \<not> hasChildren m \<or> allPresent m)"
    if "region \<in> {ul, ur, ll, lr}" for region
    using that Node.IH by (cases region) auto
  show ?case
    unfolding wellFormed.simps nodes.simps
    by (subst region, simp)+ auto
qed

lemma wellFormed_clear [simp]: "wellFormed (Node_clear n)"
  by (simp add: Node_clear_eq)

lemma wellFormed_new [simp]: "wellFormed (Node_new P)"
  by (simp add: Node_new_def)

lemma perform_wellFormed:
  assumes "wellFormed (m_tree t)" and "perform P op t = Some r"
  shows "\<exists>t'. r = Inr t' \<and> wellFormed (m_tree t')"
proof (cases op)
  case Rebalance
  with assms(2) obtain r' where
    r': "Node_rebalance P (buildRootRegion P (m_tree t)) = Some r'"
    and r: "r = map_sum id (\<lambda>n. t\<lparr>m_tree := n\<rparr>) r'"
    by (auto simp: SearchTree2D_rebalance_def bind_eq_Some_conv)
  from rebalance_wellFormed[OF r'] assms(1) obtain n' where "r' = Inr n'" "wellFormed n'"
    by (auto simp: buildRootRegion_def)
  with r show ?thesis by simp
next
  case (Add v)
  with assms show ?thesis by (auto simp: SearchTree2D_add_def wellFormed_add)
next
  case (Remove v)
  with assms show ?thesis by (auto simp: SearchTree2D_remove_def wellFormed_remove)
next
  case Clear
  with assms show ?thesis by (auto simp: SearchTree2D_clear_def)
next
  case Copy
  with assms have "r = Inr (SearchTree2D_copy t)" by simp
  with assms(1) show ?thesis by (simp add: SearchTree2D_copy_def)
qed

lemma performAll_wellFormed:
  assumes "wellFormed (m_tree t)" and "performAll P ops t = Some r"
  shows "\<exists>t'. r = Inr t' \<and> wellFormed (m_tree t')"
  using assms
proof (induction ops arbitrary: t)
  case Nil
  then show ?case by force
next
  case (Cons op ops)
  from Cons.prems(2) obtain r1 where r1: "perform P op t = Some r1"
    by (auto split: option.splits)
  from perform_wellFormed[OF Cons.prems(1) r1] obtain t1 where
    t1: "r1 = Inr t1" "wellFormed (m_tree t1)" by blast
  from Cons.prems(2) r1 t1 have "performAll P ops t1 = Some r" by simp
  from Cons.IH[OF t1(2) this] show ?case .
qed

subsection \<open>Evaluating the concrete predicates\<close>

lemma sorted_list_of_fset_empty [simp]: "sorted_list_of_fset {||} = []"
  by (simp add: sorted_list_of_fset.rep_eq)

lemma sorted_list_of_fset_finsert:
  "sorted_list_of_fset (finsert x A) = insort x (sorted_list_of_fset (A |-| {|x|}))"
  by (simp add: sorted_list_of_fset.rep_eq)

lemma ffilter_finsert_if:
  "ffilter Q (finsert x A) = (if Q x then finsert x (ffilter Q A) else ffilter Q A)"
  by auto

lemma ffilter_fempty [simp]: "ffilter Q {||} = {||}"
  by auto

lemmas eval_simps = rect_satisfies_def rect_overlaps_def rect_bounds_def
  rect_quadrants_def quadMap_def g_minDataSize_def shouldSubdivide_def gathered_def
  candidateQuads_def rebalanceStep_def Node_new_def
  sorted_list_of_fset_finsert ffilter_finsert_if fcard_finsert_if fcard_fempty finsert_fminus_if
  Let_def accepts_def

lemmas run_simps = 
  SearchTree2D_rebalance_def SearchTree2D_add_def SearchTree2D_remove_def
  SearchTree2D_clear_def SearchTree2D_copy_def SearchTree2D_new_def
  SearchTree2D_getNearbyValues_def buildRootRegion_def

lemma rebalance_Done:
  "rebalanceStep P n = Done n' \<Longrightarrow> Node_rebalance P n = Some (Inr n')"
  by (simp add: Node_rebalance_step)

lemma rebalance_Subdivides:
  assumes "rebalanceStep P n = Subdivides (Node cmp (Some a) (Some b) (Some c) (Some d) dat)"
    and "Node_rebalance P a = Some (Inr a')" and "Node_rebalance P b = Some (Inr b')"
    and "Node_rebalance P c = Some (Inr c')" and "Node_rebalance P d = Some (Inr d')"
  shows "Node_rebalance P n = Some (Inr (Node cmp (Some a') (Some b') (Some c') (Some d') dat))"
  using assms by (simp add: Node_rebalance_step rebalanceRegions_def rebalanceRegion_def)

lemmas rebalance_simps = Node_rebalance_step rebalanceRegions_def rebalanceRegion_def

subsection \<open>The shape of the nodes\<close>

text \<open>
  C7. After any sequence of public operations on a newly constructed tree every node has
  either no child or all four children, and no rebalance of the sequence dereferences a
  null child: the sequence, when it returns, returns a tree.
\<close>

theorem every_node_is_leaf_or_full_branch:
  assumes "performAll P ops (SearchTree2D_new P) = Some r"
  shows "\<exists>t. r = Inr t \<and> wellFormed (m_tree t) \<and>
           (\<forall>n \<in> set (nodes (m_tree t)). \<not> hasChildren n \<or> allPresent n)"
proof -
  have "wellFormed (m_tree (SearchTree2D_new P))"
    by (simp add: SearchTree2D_new_def)
  from performAll_wellFormed[OF this assms] show ?thesis
    using wellFormed_nodes by blast
qed


theorem every_node_is_leaf_or_full_branch_witness:
  "performAll gridPredicate
     [Add (0, 0), Add (10, 10), Add (3, 7), Add (8, 2), Add (5, 5), Rebalance,
      Add (20, 20), Remove (3, 7), Copy, Rebalance]
     (SearchTree2D_new gridPredicate) =
   Some (Inr \<lparr>m_tree =
     Node ((0, 0), (20, 20))
       (Some (Node ((0, 10), (10, 20)) None None None None {|(10, 10)|}))
       (Some (Node ((10, 10), (20, 20)) None None None None {|(20, 20), (10, 10)|}))
       (Some (Node ((0, 0), (10, 10))
          (Some (Node ((0, 5), (5, 10)) None None None None {|(5, 5)|}))
          (Some (Node ((5, 5), (10, 10)) None None None None {|(10, 10), (5, 5)|}))
          (Some (Node ((0, 0), (5, 5)) None None None None {|(5, 5), (0, 0)|}))
          (Some (Node ((5, 0), (10, 5)) None None None None {|(8, 2), (5, 5)|}))
          {||}))
       (Some (Node ((10, 0), (20, 10)) None None None None {|(10, 10)|}))
       {||}\<rparr>) \<and>
   wellFormed
     (Node ((0, 0), (20, 20))
       (Some (Node ((0, 10), (10, 20)) None None None None {|(10, 10)|}))
       (Some (Node ((10, 10), (20, 20)) None None None None {|(20, 20), (10, 10)|}))
       (Some (Node ((0, 0), (10, 10))
          (Some (Node ((0, 5), (5, 10)) None None None None {|(5, 5)|}))
          (Some (Node ((5, 5), (10, 10)) None None None None {|(10, 10), (5, 5)|}))
          (Some (Node ((0, 0), (5, 5)) None None None None {|(5, 5), (0, 0)|}))
          (Some (Node ((5, 0), (10, 5)) None None None None {|(8, 2), (5, 5)|}))
          {||}))
       (Some (Node ((10, 0), (20, 10)) None None None None {|(10, 10)|}))
       ({||} :: point fset))"
proof -
  have run: "performAll gridPredicate
     [Add (0, 0), Add (10, 10), Add (3, 7), Add (8, 2), Add (5, 5), Rebalance,
      Add (20, 20), Remove (3, 7), Copy, Rebalance]
     (SearchTree2D_new gridPredicate) =
   Some (Inr \<lparr>m_tree =
     Node ((0, 0), (20, 20))
       (Some (Node ((0, 10), (10, 20)) None None None None {|(10, 10)|}))
       (Some (Node ((10, 10), (20, 20)) None None None None {|(20, 20), (10, 10)|}))
       (Some (Node ((0, 0), (10, 10))
          (Some (Node ((0, 5), (5, 10)) None None None None {|(5, 5)|}))
          (Some (Node ((5, 5), (10, 10)) None None None None {|(10, 10), (5, 5)|}))
          (Some (Node ((0, 0), (5, 5)) None None None None {|(5, 5), (0, 0)|}))
          (Some (Node ((5, 0), (10, 5)) None None None None {|(8, 2), (5, 5)|}))
          {||}))
       (Some (Node ((10, 0), (20, 10)) None None None None {|(10, 10)|}))
       {||}\<rparr>)"
    by (simp add: gridPredicate_def run_simps eval_simps rebalance_simps)
  from every_node_is_leaf_or_full_branch[OF run] show ?thesis
    unfolding run by simp
qed

subsection \<open>The outcome of a rebalance\<close>

lemma shouldSubdivide_iff:
  "shouldSubdivide P V q \<longleftrightarrow> \<not> (\<forall>v. v |\<in>| V \<longrightarrow> (\<forall>code. satisfies P (q code) v))"
proof -
  have "list_all (\<lambda>quad. satisfies P (q quad) v) [UPPER_LEFT, UPPER_RIGHT, LOWER_LEFT, LOWER_RIGHT]
        = (\<forall>code. satisfies P (q code) v)" for v
    by (auto intro: RegionCode.exhaust) (metis RegionCode.exhaust)
  then show ?thesis
    by (auto simp: shouldSubdivide_def)
qed

lemma rebalanceRegions_all_return:
  assumes "\<And>code c. m_mapRegions n code = Some c \<Longrightarrow> \<exists>c'. rec c = Some (Inr c')"
  shows "\<exists>n'. rebalanceRegions rec n = Some (Inr n')"
proof -
  have "\<exists>r. rebalanceRegion rec (m_mapRegions n code) = Some (Inr r)" for code
    using assms[of code] unfolding rebalanceRegion_Inr_iff
    by (cases "m_mapRegions n code") auto
  from this[of UPPER_LEFT] this[of UPPER_RIGHT] this[of LOWER_LEFT] this[of LOWER_RIGHT]
  show ?thesis
    unfolding rebalanceRegions_Inr_iff by auto
qed

lemma subdivided_regions:
  "\<exists>c. m_mapRegions (subdivided P n) code = Some c \<and> m_compare c = candidateQuads P n code \<and>
       (\<forall>v. v |\<in>| gathered P n \<and> satisfies P (candidateQuads P n code) v \<longrightarrow>
            v |\<in>| getAllChildValues c)"
proof -
  obtain c where c: "m_mapRegions (subdivided P n) code = Some c"
    unfolding subdivided_def staged_regions by simp
  from staged_child(1,3)[OF c[unfolded subdivided_def]] c show ?thesis by blast
qed

lemma subdivided_data:
  "m_data (subdivided P n) =
     ffilter (\<lambda>v. \<forall>code. \<not> satisfies P (candidateQuads P n code) v) (gathered P n)"
  unfolding subdivided_def staged_data by auto

lemma allPresent_subdivided: "allPresent (subdivided P n)"
  unfolding allPresent_iff subdivided_def staged_regions by simp

text \<open>
  C3. One rebalance of a node whose children are all present or all absent. The node is
  left without children, holding the gathered values, when these are at most three or all
  satisfy all four candidate quadrants. Otherwise the call is the four recursive calls on
  the children of the subdivided node: it returns when they return, and then the node
  has four children with the candidate quadrants as search spaces and the orphans as its
  own values.
\<close>

theorem rebalance_leaf_or_branch:
  assumes "hasChildren n \<longrightarrow> allPresent n"
  shows
    "if fcard (gathered P n) \<le> g_minDataSize \<or>
        (\<forall>v. v |\<in>| gathered P n \<longrightarrow> (\<forall>code. satisfies P (candidateQuads P n code) v))
     then Node_rebalance P n = Some (Inr (Node (m_compare n) None None None None (gathered P n)))
     else Node_rebalance P n = rebalanceRegions (Node_rebalance P) (subdivided P n) \<and>
          allPresent (subdivided P n) \<and>
          (\<forall>code. \<exists>c. m_mapRegions (subdivided P n) code = Some c \<and>
             m_compare c = candidateQuads P n code \<and>
             (\<forall>v. v |\<in>| gathered P n \<and> satisfies P (candidateQuads P n code) v \<longrightarrow>
                  v |\<in>| getAllChildValues c)) \<and>
          m_data (subdivided P n) =
            ffilter (\<lambda>v. \<forall>code. \<not> satisfies P (candidateQuads P n code) v) (gathered P n) \<and>
          ((\<forall>code c. m_mapRegions (subdivided P n) code = Some c \<longrightarrow>
               (\<exists>c'. Node_rebalance P c = Some (Inr c'))) \<longrightarrow>
           (\<exists>n'. Node_rebalance P n = Some (Inr n'))) \<and>
          (\<forall>n'. Node_rebalance P n = Some (Inr n') \<longrightarrow>
             m_compare n' = m_compare n \<and> allPresent n' \<and>
             m_data n' =
               ffilter (\<lambda>v. \<forall>code. \<not> satisfies P (candidateQuads P n code) v) (gathered P n) \<and>
             (\<forall>code. \<exists>c c'. m_mapRegions (subdivided P n) code = Some c \<and>
                m_mapRegions n' code = Some c' \<and> Node_rebalance P c = Some (Inr c') \<and>
                m_compare c' = candidateQuads P n code))"
proof (cases "fcard (gathered P n) \<le> g_minDataSize \<or>
        (\<forall>v. v |\<in>| gathered P n \<longrightarrow> (\<forall>code. satisfies P (candidateQuads P n code) v))")
  case True
  with assms have "rebalanceStep P n =
      Done (Node (m_compare n) None None None None (gathered P n))"
    unfolding rebalanceStep_Done_iff shouldSubdivide_iff by blast
  then have "Node_rebalance P n = Some (Inr (Node (m_compare n) None None None None (gathered P n)))"
    by (rule rebalance_Done)
  with True show ?thesis by simp
next
  case False
  with assms have "rebalanceStep P n = Subdivides (subdivided P n)"
    unfolding rebalanceStep_Subdivides_iff shouldSubdivide_iff subdivided_def by blast
  then have run: "Node_rebalance P n = rebalanceRegions (Node_rebalance P) (subdivided P n)"
    by (simp add: Node_rebalance_step)
  have returns: "\<exists>n'. Node_rebalance P n = Some (Inr n')"
    if "\<forall>code c. m_mapRegions (subdivided P n) code = Some c \<longrightarrow>
               (\<exists>c'. Node_rebalance P c = Some (Inr c'))"
    unfolding run using that by (intro rebalanceRegions_all_return) blast
  have result: "m_compare n' = m_compare n \<and> allPresent n' \<and>
             m_data n' =
               ffilter (\<lambda>v. \<forall>code. \<not> satisfies P (candidateQuads P n code) v) (gathered P n) \<and>
             (\<forall>code. \<exists>c c'. m_mapRegions (subdivided P n) code = Some c \<and>
                m_mapRegions n' code = Some c' \<and> Node_rebalance P c = Some (Inr c') \<and>
                m_compare c' = candidateQuads P n code)"
    if n': "Node_rebalance P n = Some (Inr n')" for n'
  proof -
    from n' have rr: "rebalanceRegions (Node_rebalance P) (subdivided P n) = Some (Inr n')"
      unfolding run .
    have child: "\<exists>c c'. m_mapRegions (subdivided P n) code = Some c \<and>
                m_mapRegions n' code = Some c' \<and> Node_rebalance P c = Some (Inr c') \<and>
                m_compare c' = candidateQuads P n code" for code
    proof -
      from subdivided_regions[of P n code] obtain c where
        c: "m_mapRegions (subdivided P n) code = Some c" "m_compare c = candidateQuads P n code"
        by blast
      from rebalanceRegions_Inr_region[OF rr c(1)] obtain c' where
        c': "m_mapRegions n' code = Some c'" "Node_rebalance P c = Some (Inr c')"
        by blast
      from rebalance_result[OF c'(2)] c(2) have "m_compare c' = candidateQuads P n code"
        by simp
      with c c' show ?thesis by blast
    qed
    then have "allPresent n'"
      unfolding allPresent_iff by (metis option.distinct(1))
    moreover have "m_compare n' = m_compare n"
      using rebalanceRegions_InrD(1)[OF rr] by (simp add: subdivided_def)
    moreover have "m_data n' =
        ffilter (\<lambda>v. \<forall>code. \<not> satisfies P (candidateQuads P n code) v) (gathered P n)"
      using rebalanceRegions_InrD(2)[OF rr] by (simp add: subdivided_data)
    ultimately show ?thesis using child by blast
  qed
  show ?thesis
    unfolding if_not_P[OF False]
  proof (intro conjI allI impI)
    show "Node_rebalance P n = rebalanceRegions (Node_rebalance P) (subdivided P n)"
      by (rule run)
    show "allPresent (subdivided P n)"
      by (rule allPresent_subdivided)
    show "m_data (subdivided P n) =
        ffilter (\<lambda>v. \<forall>code. \<not> satisfies P (candidateQuads P n code) v) (gathered P n)"
      by (rule subdivided_data)
  qed (use returns result subdivided_regions[of P n] in blast)+
qed


lemma unitSquare_step:
  "rebalanceStep gridPredicate unitSquare =
     Subdivides
       (Node ((0, 0), (1, 1))
          (Some (Node ((0, 0), (0, 1)) None None None None {|(0, 1), (0, 0)|}))
          (Some unitSquare)
          (Some (Node ((0, 0), (0, 0)) None None None None {|(0, 0)|}))
          (Some (Node ((0, 0), (1, 0)) None None None None {|(1, 0), (0, 0)|}))
          {||})"
  by (simp add: unitSquare_def gridPredicate_def eval_simps)

lemma unitSquare_never_returns: "Node_rebalance gridPredicate unitSquare = None"
proof (rule ccontr)
  assume "Node_rebalance gridPredicate unitSquare \<noteq> None"
  then obtain r where "Node_rebalance gridPredicate unitSquare = Some r" by blast
  moreover have "n \<noteq> unitSquare" if "Node_rebalance gridPredicate n = Some r" for n r
    using that
  proof (induction rule: Node_rebalance_induct)
    case (Fails n e)
    then show ?case using unitSquare_step by auto
  next
    case (Done n n')
    then show ?case using unitSquare_step by auto
  next
    case (Subdivides n n2 n')
    show ?case
    proof
      assume "n = unitSquare"
      with Subdivides(1) unitSquare_step have "m_mapRegions n2 UPPER_RIGHT = Some unitSquare"
        by auto
      from Subdivides(3)[OF this] show False by blast
    qed
  next
    case (SubdividesFails n n2 code c e)
    show ?case
    proof
      assume "n = unitSquare"
      with SubdividesFails(1) unitSquare_step have
        n2: "n2 = Node ((0, 0), (1, 1))
          (Some (Node ((0, 0), (0, 1)) None None None None {|(0, 1), (0, 0)|}))
          (Some unitSquare)
          (Some (Node ((0, 0), (0, 0)) None None None None {|(0, 0)|}))
          (Some (Node ((0, 0), (1, 0)) None None None None {|(1, 0), (0, 0)|}))
          {||}"
        by auto
      have "wellFormed c"
        using SubdividesFails(2) unfolding n2 by (cases code) (auto simp: unitSquare_def)
      with rebalance_wellFormed[OF SubdividesFails(3)] show False by simp
    qed
  qed
  ultimately show False by blast
qed

theorem rebalance_branch_counterexample:
  "\<not> hasChildren unitSquare \<and>
   \<not> fcard (gathered gridPredicate unitSquare) \<le> g_minDataSize \<and>
   \<not> (\<forall>v. v |\<in>| gathered gridPredicate unitSquare \<longrightarrow>
         (\<forall>code. satisfies gridPredicate (candidateQuads gridPredicate unitSquare code) v)) \<and>
   Node_rebalance gridPredicate unitSquare = None \<and>
   SearchTree2D_rebalance gridPredicate
     (fold (SearchTree2D_add gridPredicate) [(0, 0), (0, 1), (1, 0), (1, 1)]
        (SearchTree2D_new gridPredicate)) = None"
proof -
  have 1: "\<not> hasChildren unitSquare"
    by (simp add: unitSquare_def)
  have 2: "\<not> fcard (gathered gridPredicate unitSquare) \<le> g_minDataSize"
    by (simp add: unitSquare_def gridPredicate_def eval_simps)
  have "\<not> satisfies gridPredicate (candidateQuads gridPredicate unitSquare LOWER_LEFT) (1, 1)"
    "(1, 1) |\<in>| gathered gridPredicate unitSquare"
    by (simp_all add: unitSquare_def gridPredicate_def eval_simps)
  then have 3: "\<not> (\<forall>v. v |\<in>| gathered gridPredicate unitSquare \<longrightarrow>
         (\<forall>code. satisfies gridPredicate (candidateQuads gridPredicate unitSquare code) v))"
    by blast
  have root: "buildRootRegion gridPredicate (m_tree
      (fold (SearchTree2D_add gridPredicate) [(0, 0), (0, 1), (1, 0), (1, 1)]
        (SearchTree2D_new gridPredicate))) = unitSquare"
    by (simp add: unitSquare_def gridPredicate_def run_simps eval_simps)
  have 5: "SearchTree2D_rebalance gridPredicate
     (fold (SearchTree2D_add gridPredicate) [(0, 0), (0, 1), (1, 0), (1, 1)]
        (SearchTree2D_new gridPredicate)) = None"
    unfolding SearchTree2D_rebalance_def root unitSquare_never_returns by simp
  from 1 2 3 5 unitSquare_never_returns show ?thesis by blast
qed

theorem rebalance_leaf_or_branch_witness:
  "Node_rebalance gridPredicate (Node ((0, 0), (10, 10)) None None None None {|(0, 0), (10, 10), (20, 20)|}) =
     Some (Inr (Node ((0, 0), (10, 10)) None None None None {|(0, 0), (10, 10)|})) \<and>
   Node_rebalance gridPredicate fivePoints =
     Some (Inr (Node ((0, 0), (10, 10))
       (Some (Node ((0, 5), (5, 10)) None None None None {|(5, 5), (3, 7)|}))
       (Some (Node ((5, 5), (10, 10)) None None None None {|(10, 10), (5, 5)|}))
       (Some (Node ((0, 0), (5, 5)) None None None None {|(5, 5), (0, 0)|}))
       (Some (Node ((5, 0), (10, 5)) None None None None {|(8, 2), (5, 5)|}))
       {||}))"
proof -
  let ?small = "Node ((0, 0), (10, 10)) None None None None {|(0, 0), (10, 10), (20, 20)|}
                  :: (point, rect) node"
  have small: "fcard (gathered gridPredicate ?small) \<le> g_minDataSize"
    by (simp add: gridPredicate_def eval_simps)
  have "Node_rebalance gridPredicate ?small =
     Some (Inr (Node ((0, 0), (10, 10)) None None None None {|(0, 0), (10, 10)|}))"
    using rebalance_leaf_or_branch[of ?small gridPredicate] small
    by (simp add: gridPredicate_def eval_simps)
  moreover
  have leaf: "hasChildren fivePoints \<longrightarrow> allPresent fivePoints"
    by (simp add: fivePoints_def)
  have big: "\<not> (fcard (gathered gridPredicate fivePoints) \<le> g_minDataSize \<or>
        (\<forall>v. v |\<in>| gathered gridPredicate fivePoints \<longrightarrow>
           (\<forall>code. satisfies gridPredicate (candidateQuads gridPredicate fivePoints code) v)))"
  proof -
    have "\<not> fcard (gathered gridPredicate fivePoints) \<le> g_minDataSize"
      "\<not> satisfies gridPredicate (candidateQuads gridPredicate fivePoints LOWER_LEFT) (10, 10)"
      "(10, 10) |\<in>| gathered gridPredicate fivePoints"
      by (simp_all add: fivePoints_def gridPredicate_def eval_simps)
    then show ?thesis by blast
  qed
  have "Node_rebalance gridPredicate fivePoints =
      rebalanceRegions (Node_rebalance gridPredicate) (subdivided gridPredicate fivePoints)"
    using rebalance_leaf_or_branch[OF leaf, of gridPredicate] unfolding if_not_P[OF big] by blast
  then have "Node_rebalance gridPredicate fivePoints =
     Some (Inr (Node ((0, 0), (10, 10))
       (Some (Node ((0, 5), (5, 10)) None None None None {|(5, 5), (3, 7)|}))
       (Some (Node ((5, 5), (10, 10)) None None None None {|(10, 10), (5, 5)|}))
       (Some (Node ((0, 0), (5, 5)) None None None None {|(5, 5), (0, 0)|}))
       (Some (Node ((5, 0), (10, 5)) None None None None {|(8, 2), (5, 5)|}))
       {||}))"
    by (simp add: subdivided_def fivePoints_def gridPredicate_def eval_simps rebalance_simps)
  ultimately show ?thesis by blast
qed

subsection \<open>The values a rebalance keeps\<close>

lemma rebalance_exact:
  assumes "Node_rebalance P n = Some r"
  shows "(\<not> hasChildren n \<or> nestedQuadrants P) \<longrightarrow>
           (\<forall>n'. r = Inr n' \<longrightarrow> getAllChildValues n' |\<subseteq>| gathered P n)"
  using assms
proof (induction rule: Node_rebalance_induct)
  case (Fails n e)
  show ?case by simp
next
  case (SubdividesFails n n2 code c e)
  show ?case by simp
next
  case (Done n n')
  then show ?case
    by (auto simp: rebalanceStep_Done_iff gathered_iff)
next
  case (Subdivides n n2 n')
  let ?q = "candidateQuads P n"
  from Subdivides(1) have n2: "n2 = fold (Node_add P) (sorted_list_of_fset (gathered P n))
      (createChildren P ?q (set_m_data {||} n))"
    by (simp add: rebalanceStep_Subdivides_iff)
  note res = rebalanceRegions_InrD[OF Subdivides(2)]
  have dat: "m_data n' |\<subseteq>| gathered P n"
    using res(2) by (auto simp: n2 staged_data fset_of_list_elem)
  show ?case
  proof (intro impI allI)
    fix n'' assume cond: "\<not> hasChildren n \<or> nestedQuadrants P" and "Inr n' = Inr n''"
    then have n'': "n'' = n'" by simp
    show "getAllChildValues n'' |\<subseteq>| gathered P n"
      unfolding n''
    proof (rule fsubsetI)
      fix v assume "v |\<in>| getAllChildValues n'"
      then consider "v |\<in>| m_data n'"
        | code c' where "m_mapRegions n' code = Some c'" "v |\<in>| getAllChildValues c'"
        unfolding values_by_region[of v n'] by blast
      then show "v |\<in>| gathered P n"
      proof cases
        case 1
        with dat show ?thesis by auto
      next
        case 2
        obtain c where c: "m_mapRegions n2 code = Some c"
          unfolding n2 staged_regions by simp
        note st = staged_child[OF c[unfolded n2]]
        from Subdivides(3)[OF c] 2(1)
        have ih: "\<not> hasChildren c \<or> nestedQuadrants P \<longrightarrow> getAllChildValues c' |\<subseteq>| gathered P c"
          by auto
        from cond show ?thesis
        proof
          assume leaf: "\<not> hasChildren n"
          then have none: "m_mapRegions n code = None"
            unfolding hasChildren_iff by simp
          from st(4)[OF none] have shape:
            "c = Node (?q code) None None None None (ffilter (satisfies P (?q code)) (gathered P n))" .
          then have "\<not> hasChildren c" by simp
          with ih 2(2) have "v |\<in>| gathered P c" by auto
          then show ?thesis
            by (subst (asm) shape) (auto simp: gathered_iff)
        next
          assume nested: "nestedQuadrants P"
          with ih 2(2) have v: "v |\<in>| gathered P c" by auto
          then have "satisfies P (?q code) v" "v |\<in>| getAllChildValues n"
            using st(1,2) by (auto simp: gathered_iff)
          moreover from this(1) nested have "satisfies P (m_compare n) v"
            unfolding nestedQuadrants_def candidateQuads_def by blast
          ultimately show ?thesis by (simp add: gathered_iff)
        qed
      qed
    qed
  qed
qed

lemma hasChildren_setCompare [simp]: "hasChildren (setCompare r n) = hasChildren n"
  by (cases n) simp

lemma SearchTree2D_rebalance_Inr:
  assumes "SearchTree2D_rebalance P t = Some (Inr t')"
  shows "Node_rebalance P (buildRootRegion P (m_tree t)) = Some (Inr (m_tree t'))"
proof -
  from assms obtain r where r: "Node_rebalance P (buildRootRegion P (m_tree t)) = Some r"
    and t': "map_sum id (\<lambda>n. t\<lparr>m_tree := n\<rparr>) r = Inr t'"
    by (auto simp: SearchTree2D_rebalance_def bind_eq_Some_conv)
  from t' obtain n' where "r = Inr n'" "t' = t\<lparr>m_tree := n'\<rparr>"
    by (cases r) auto
  with r show ?thesis by simp
qed

text \<open>
  C4. \<^verbatim>\<open>add\<close> and \<^verbatim>\<open>remove\<close> lose no value but the one removed. A rebalance of the
  tree that returns keeps every value that satisfies the rebuilt root search space and
  holds no value that the tree did not hold before; it holds exactly the satisfying
  values when the root had no children before the call, or when the predicate's
  quadrants accept only what the split region accepts.
\<close>

theorem rebalance_keeps_satisfying_values:
  "getAllChildValues (Node_add P v n) = finsert v (getAllChildValues n) \<and>
   getAllChildValues (Node_remove v n) = getAllChildValues n |-| {|v|} \<and>
   (\<forall>t'. SearchTree2D_rebalance P t = Some (Inr t') \<longrightarrow>
      m_compare (m_tree t') = buildRegionFromData P (getAllChildValues (m_tree t)) \<and>
      ffilter (satisfies P (buildRegionFromData P (getAllChildValues (m_tree t))))
        (getAllChildValues (m_tree t)) |\<subseteq>| getAllChildValues (m_tree t') \<and>
      getAllChildValues (m_tree t') |\<subseteq>| getAllChildValues (m_tree t) \<and>
      (\<not> hasChildren (m_tree t) \<or> nestedQuadrants P \<longrightarrow>
         getAllChildValues (m_tree t') =
           ffilter (satisfies P (buildRegionFromData P (getAllChildValues (m_tree t))))
             (getAllChildValues (m_tree t))))"
proof (intro conjI allI impI)
  fix t' assume run: "SearchTree2D_rebalance P t = Some (Inr t')"
  let ?R = "buildRegionFromData P (getAllChildValues (m_tree t))"
  let ?n = "buildRootRegion P (m_tree t)"
  note node = SearchTree2D_rebalance_Inr[OF run]
  have g: "gathered P ?n = ffilter (satisfies P ?R) (getAllChildValues (m_tree t))"
    by (simp add: gathered_def buildRootRegion_def)
  from rebalance_result[OF node]
  show "m_compare (m_tree t') = ?R"
    and lower: "ffilter (satisfies P ?R) (getAllChildValues (m_tree t)) |\<subseteq>| getAllChildValues (m_tree t')"
    and "getAllChildValues (m_tree t') |\<subseteq>| getAllChildValues (m_tree t)"
    unfolding g by (simp_all add: buildRootRegion_def)
  show "getAllChildValues (m_tree t') = ffilter (satisfies P ?R) (getAllChildValues (m_tree t))"
    if "\<not> hasChildren (m_tree t) \<or> nestedQuadrants P"
    using rebalance_exact[OF node] that lower unfolding g
    by (auto simp: buildRootRegion_def)
qed simp_all


theorem rebalance_keeps_satisfying_values_witness:
  "SearchTree2D_rebalance gridPredicate \<lparr>m_tree = fivePoints\<rparr> =
     Some (Inr \<lparr>m_tree =
       Node ((0, 0), (10, 10))
         (Some (Node ((0, 5), (5, 10)) None None None None {|(5, 5), (3, 7)|}))
         (Some (Node ((5, 5), (10, 10)) None None None None {|(10, 10), (5, 5)|}))
         (Some (Node ((0, 0), (5, 5)) None None None None {|(5, 5), (0, 0)|}))
         (Some (Node ((5, 0), (10, 5)) None None None None {|(8, 2), (5, 5)|}))
         {||}\<rparr>) \<and>
   \<not> hasChildren fivePoints \<and>
   getAllChildValues
     (Node ((0, 0), (10, 10))
         (Some (Node ((0, 5), (5, 10)) None None None None {|(5, 5), (3, 7)|}))
         (Some (Node ((5, 5), (10, 10)) None None None None {|(10, 10), (5, 5)|}))
         (Some (Node ((0, 0), (5, 5)) None None None None {|(5, 5), (0, 0)|}))
         (Some (Node ((5, 0), (10, 5)) None None None None {|(8, 2), (5, 5)|}))
         {||}) =
     ffilter (rect_satisfies ((0, 0), (10, 10))) {|(0, 0), (10, 10), (3, 7), (8, 2), (5, 5)|}"
proof -
  have run: "SearchTree2D_rebalance gridPredicate \<lparr>m_tree = fivePoints\<rparr> =
     Some (Inr \<lparr>m_tree =
       Node ((0, 0), (10, 10))
         (Some (Node ((0, 5), (5, 10)) None None None None {|(5, 5), (3, 7)|}))
         (Some (Node ((5, 5), (10, 10)) None None None None {|(10, 10), (5, 5)|}))
         (Some (Node ((0, 0), (5, 5)) None None None None {|(5, 5), (0, 0)|}))
         (Some (Node ((5, 0), (10, 5)) None None None None {|(8, 2), (5, 5)|}))
         {||}\<rparr>)"
    by (simp add: fivePoints_def gridPredicate_def run_simps eval_simps rebalance_simps)
  have leaf: "\<not> hasChildren fivePoints"
    by (simp add: fivePoints_def)
  have prior: "getAllChildValues fivePoints = {|(0, 0), (10, 10), (3, 7), (8, 2), (5, 5)|}"
    "buildRegionFromData gridPredicate {|(0, 0), (10, 10), (3, 7), (8, 2), (5, 5)|} = ((0, 0), (10, 10))"
    "satisfies gridPredicate = rect_satisfies"
    by (simp_all add: fivePoints_def gridPredicate_def rect_bounds_def)
  from rebalance_keeps_satisfying_values
    [of gridPredicate _ _ "\<lparr>m_tree = fivePoints\<rparr>", THEN conjunct2, THEN conjunct2, rule_format, OF run]
    leaf run
  show ?thesis
    by (simp add: prior)
qed

theorem rebalance_value_set_counterexample:
  "performAll loosePredicate
     [Add (10, 10), Add (10, 90), Add (90, 10), Add (90, 90), Rebalance, Add (105, 105)]
     (SearchTree2D_new loosePredicate) = Some (Inr looseTree) \<and>
   SearchTree2D_rebalance loosePredicate looseTree = Some (Inr looseTree) \<and>
   getAllChildValues (m_tree looseTree) \<noteq>
     ffilter (satisfies loosePredicate
                (buildRegionFromData loosePredicate (getAllChildValues (m_tree looseTree))))
       (getAllChildValues (m_tree looseTree))"
proof -
  have 1: "performAll loosePredicate
     [Add (10, 10), Add (10, 90), Add (90, 10), Add (90, 90), Rebalance, Add (105, 105)]
     (SearchTree2D_new loosePredicate) = Some (Inr looseTree)"
    by (simp add: looseTree_def loosePredicate_def loose_quadrants_def run_simps eval_simps
        rebalance_simps)
  have 2: "SearchTree2D_rebalance loosePredicate looseTree = Some (Inr looseTree)"
    by (auto simp: looseTree_def loosePredicate_def loose_quadrants_def run_simps eval_simps
        rebalance_simps)
  have "(105, 105) |\<in>| getAllChildValues (m_tree looseTree)"
    by (simp add: looseTree_def)
  moreover have "\<not> satisfies loosePredicate
      (buildRegionFromData loosePredicate (getAllChildValues (m_tree looseTree))) (105, 105)"
    by (simp add: loosePredicate_def rect_satisfies_def)
  ultimately have 3: "getAllChildValues (m_tree looseTree) \<noteq>
     ffilter (satisfies loosePredicate
                (buildRegionFromData loosePredicate (getAllChildValues (m_tree looseTree))))
       (getAllChildValues (m_tree looseTree))"
    by (metis ffmember_filter)
  from 1 2 3 show ?thesis by blast
qed

subsection \<open>Rebalancing twice\<close>

lemma node_eqI:
  assumes "m_compare a = m_compare b" and "\<And>code. m_mapRegions a code = m_mapRegions b code"
    and "m_data a = m_data b"
  shows "a = b"
  using assms(1,3) assms(2)[of UPPER_LEFT] assms(2)[of UPPER_RIGHT]
    assms(2)[of LOWER_LEFT] assms(2)[of LOWER_RIGHT]
  by (cases a; cases b) simp

lemma fold_add_id:
  "(\<And>v. v \<in> set vs \<Longrightarrow> Node_add P v c = c) \<Longrightarrow> fold (Node_add P) vs c = c"
  by (induction vs) simp_all

lemma setCompare_id: "m_compare c = r \<Longrightarrow> setCompare r c = c"
  by (cases c) simp

lemma rebalanceRegions_fixed:
  assumes "\<And>code c. m_mapRegions n code = Some c \<Longrightarrow> rec c = Some (Inr c)"
  shows "rebalanceRegions rec n = Some (Inr n)"
proof -
  have "rebalanceRegion rec (m_mapRegions n code) = Some (Inr (m_mapRegions n code))" for code
    using assms[of code] unfolding rebalanceRegion_Inr_iff
    by (cases "m_mapRegions n code") auto
  from this[of UPPER_LEFT] this[of UPPER_RIGHT] this[of LOWER_LEFT] this[of LOWER_RIGHT]
  show ?thesis
    unfolding rebalanceRegions_Inr_iff by (cases n) simp
qed

lemma candidateQuads_fromScratch:
  "quadrantsFromScratch P \<Longrightarrow>
     candidateQuads P n = buildQuadrantsFromData P (m_compare n) (gathered P n) refs"
  unfolding candidateQuads_def quadrantsFromScratch_def by blast

lemma candidateQuads_cong:
  assumes "quadrantsFromScratch P" and "m_compare n' = m_compare n" and "gathered P n' = gathered P n"
  shows "candidateQuads P n' = candidateQuads P n"
  using candidateQuads_fromScratch[OF assms(1), of n' undefined]
    candidateQuads_fromScratch[OF assms(1), of n undefined] assms(2,3)
  by simp

lemma rebalance_idempotent:
  assumes scratch: "quadrantsFromScratch P" and "Node_rebalance P n = Some r"
  shows "\<forall>n'. r = Inr n' \<longrightarrow>
           Node_rebalance P n' = Some (Inr n') \<and>
           (\<forall>v. v |\<in>| gathered P n \<longrightarrow> Node_add P v n' = n')"
  using assms(2)
proof (induction rule: Node_rebalance_induct)
  case (Fails n e)
  show ?case by simp
next
  case (SubdividesFails n n2 code c e)
  show ?case by simp
next
  case (Done n n')
  let ?V = "gathered P n"
  from Done have n': "n' = Node (m_compare n) None None None None ?V"
    and cond: "fcard ?V \<le> g_minDataSize \<or> \<not> shouldSubdivide P ?V (candidateQuads P n)"
    by (auto simp: rebalanceStep_Done_iff)
  have g: "gathered P n' = ?V"
    unfolding n' by (auto simp: gathered_iff)
  have q: "candidateQuads P n' = candidateQuads P n"
    by (rule candidateQuads_cong[OF scratch _ g]) (simp add: n')
  have "rebalanceStep P n' = Done n'"
    unfolding rebalanceStep_Done_iff g q using cond by (simp add: n')
  then have "Node_rebalance P n' = Some (Inr n')"
    by (rule rebalance_Done)
  moreover have "Node_add P v n' = n'" if "v |\<in>| ?V" for v
    using that unfolding n' by (simp add: finsert_absorb)
  ultimately show ?case by simp
next
  case (Subdivides n n2 n')
  let ?V = "gathered P n"
  let ?vs = "sorted_list_of_fset ?V"
  let ?q = "candidateQuads P n"
  from Subdivides(1) have n2: "n2 = fold (Node_add P) ?vs (createChildren P ?q (set_m_data {||} n))"
    and big: "\<not> fcard ?V \<le> g_minDataSize" and sub: "shouldSubdivide P ?V ?q"
    by (simp_all add: rebalanceStep_Subdivides_iff)
  from Subdivides(1,2) have run: "Node_rebalance P n = Some (Inr n')"
    by (simp add: Node_rebalance_step)
  note res = rebalanceRegions_InrD[OF Subdivides(2)]
  note bounds = rebalance_result[OF run, rule_format, OF refl]
  have cmp: "m_compare n' = m_compare n" using bounds by simp
  have dat: "m_data n' = fset_of_list (filter (\<lambda>v. \<forall>code. \<not> satisfies P (?q code) v) ?vs)"
    using res(2) by (simp add: n2 staged_data)
  have g: "gathered P n' = ?V"
    using bounds by (auto simp: gathered_iff)
  have child: "\<exists>c'. m_mapRegions n' code = Some c' \<and> m_compare c' = ?q code \<and>
      Node_rebalance P c' = Some (Inr c') \<and>
      (\<forall>v. v |\<in>| ?V \<and> satisfies P (?q code) v \<longrightarrow> Node_add P v c' = c')" for code
  proof -
    obtain c where c: "m_mapRegions n2 code = Some c"
      unfolding n2 staged_regions by simp
    note st = staged_child[OF c[unfolded n2]]
    from Subdivides(3)[OF c] obtain c' where
      c': "m_mapRegions n' code = Some c'" "Node_rebalance P c = Some (Inr c')"
      and ih: "Node_rebalance P c' = Some (Inr c')"
        "\<forall>v. v |\<in>| gathered P c \<longrightarrow> Node_add P v c' = c'"
      by auto
    from rebalance_result[OF c'(2)] st(1) have "m_compare c' = ?q code" by simp
    moreover have "Node_add P v c' = c'" if "v |\<in>| ?V" "satisfies P (?q code) v" for v
      using ih(2) st(3)[OF that] st(1) that(2) by (simp add: gathered_iff)
    ultimately show ?thesis using c'(1) ih(1) by blast
  qed
  have present: "allPresent n'" "hasChildren n'"
    using child unfolding allPresent_iff hasChildren_iff by (metis option.distinct(1))+
  have q: "candidateQuads P n' = ?q"
    by (rule candidateQuads_cong[OF scratch cmp g])
  have step: "rebalanceStep P n' =
      Subdivides (fold (Node_add P) ?vs (createChildren P ?q (set_m_data {||} n')))"
    unfolding rebalanceStep_Subdivides_iff g q using big sub present by simp
  have same: "fold (Node_add P) ?vs (createChildren P ?q (set_m_data {||} n')) = n'"
  proof (rule node_eqI)
    show "m_compare (fold (Node_add P) ?vs (createChildren P ?q (set_m_data {||} n'))) = m_compare n'"
      by simp
    show "m_data (fold (Node_add P) ?vs (createChildren P ?q (set_m_data {||} n'))) = m_data n'"
      unfolding staged_data dat ..
    fix code
    from child[of code] obtain c' where
      c': "m_mapRegions n' code = Some c'" "m_compare c' = ?q code"
      "\<forall>v. v |\<in>| ?V \<and> satisfies P (?q code) v \<longrightarrow> Node_add P v c' = c'"
      by blast
    have "fold (Node_add P) (filter (satisfies P (?q code)) ?vs) (setCompare (?q code) c') = c'"
      unfolding setCompare_id[OF c'(2)]
      by (rule fold_add_id) (use c'(3) in auto)
    then show "m_mapRegions (fold (Node_add P) ?vs (createChildren P ?q (set_m_data {||} n'))) code =
        m_mapRegions n' code"
      unfolding staged_regions c'(1) by simp
  qed
  have again: "Node_rebalance P n' = Some (Inr n')"
  proof -
    have "rebalanceRegions (Node_rebalance P) n' = Some (Inr n')"
    proof (rule rebalanceRegions_fixed)
      fix code c assume "m_mapRegions n' code = Some c"
      with child[of code] show "Node_rebalance P c = Some (Inr c)" by simp
    qed
    then show ?thesis
      by (subst Node_rebalance_step) (simp add: step same)
  qed
  have add: "Node_add P v n' = n'" if v: "v |\<in>| ?V" for v
  proof (rule node_eqI)
    show "m_compare (Node_add P v n') = m_compare n'" by simp
    fix code
    from child[of code] v show "m_mapRegions (Node_add P v n') code = m_mapRegions n' code"
      unfolding add_regions_always by auto
  next
    show "m_data (Node_add P v n') = m_data n'"
    proof (cases "\<exists>code child. m_mapRegions n' code = Some child \<and> satisfies P (m_compare child) v")
      case True
      then show ?thesis unfolding add_data[OF present(2)] by simp
    next
      case False
      with child have "\<forall>code. \<not> satisfies P (?q code) v" by metis
      with v have "v |\<in>| m_data n'" by (simp add: dat fset_of_list_elem)
      with False show ?thesis unfolding add_data[OF present(2)] by (simp add: finsert_absorb)
    qed
  qed
  from again add show ?case by simp
qed


text \<open>
  C6. For a predicate that builds its quadrants from scratch: when a rebalance of the tree
  returns, and the values it kept give the same root search space as the values before
  (as they do when every value satisfies the search space built from the values), a second
  rebalance returns as well and leaves the tree exactly as the first left it, so that
  every query is answered as before.
\<close>

theorem rebalance_twice_same_queries:
  assumes "quadrantsFromScratch P"
    and "SearchTree2D_rebalance P t = Some (Inr t1)"
    and "(\<forall>v. v |\<in>| getAllChildValues (m_tree t) \<longrightarrow>
            satisfies P (buildRegionFromData P (getAllChildValues (m_tree t))) v) \<or>
         buildRegionFromData P (getAllChildValues (m_tree t1)) =
           buildRegionFromData P (getAllChildValues (m_tree t))"
  shows "SearchTree2D_rebalance P t1 = Some (Inr t1) \<and>
         (\<forall>t2 r. SearchTree2D_rebalance P t1 = Some (Inr t2) \<longrightarrow>
            SearchTree2D_getNearbyValues P t2 r = SearchTree2D_getNearbyValues P t1 r)"
proof -
  let ?prior = "getAllChildValues (m_tree t)"
  let ?R = "buildRegionFromData P ?prior"
  note node = SearchTree2D_rebalance_Inr[OF assms(2)]
  note bounds = rebalance_result[OF node, rule_format, OF refl]
  have g: "gathered P (buildRootRegion P (m_tree t)) = ffilter (satisfies P ?R) ?prior"
    by (simp add: gathered_def buildRootRegion_def)
  have cmp: "m_compare (m_tree t1) = ?R"
    using bounds by (simp add: buildRootRegion_def)
  have region: "buildRegionFromData P (getAllChildValues (m_tree t1)) = ?R"
    using assms(3)
  proof
    assume "\<forall>v. v |\<in>| ?prior \<longrightarrow> satisfies P ?R v"
    then have "ffilter (satisfies P ?R) ?prior = ?prior" by auto
    with bounds have "getAllChildValues (m_tree t1) = ?prior"
      unfolding g by (auto simp: buildRootRegion_def)
    then show ?thesis by simp
  qed
  have root: "buildRootRegion P (m_tree t1) = m_tree t1"
    unfolding buildRootRegion_def region by (rule setCompare_id[OF cmp])
  from rebalance_idempotent[OF assms(1) node]
  have "Node_rebalance P (m_tree t1) = Some (Inr (m_tree t1))" by simp
  then have "SearchTree2D_rebalance P t1 = Some (Inr t1)"
    by (simp add: SearchTree2D_rebalance_def root)
  then show ?thesis by simp
qed

lemma quadrantsFromScratch_rect:
  "buildQuadrantsFromData P = rect_quadrants \<Longrightarrow> quadrantsFromScratch P"
  by (simp add: quadrantsFromScratch_def rect_quadrants_def)

theorem rebalance_twice_same_queries_witness:
  "quadrantsFromScratch gridPredicate \<and>
   SearchTree2D_rebalance gridPredicate \<lparr>m_tree = fivePoints\<rparr> =
     Some (Inr \<lparr>m_tree =
       Node ((0, 0), (10, 10))
         (Some (Node ((0, 5), (5, 10)) None None None None {|(5, 5), (3, 7)|}))
         (Some (Node ((5, 5), (10, 10)) None None None None {|(10, 10), (5, 5)|}))
         (Some (Node ((0, 0), (5, 5)) None None None None {|(5, 5), (0, 0)|}))
         (Some (Node ((5, 0), (10, 5)) None None None None {|(8, 2), (5, 5)|}))
         {||}\<rparr>) \<and>
   SearchTree2D_rebalance gridPredicate
     \<lparr>m_tree =
       Node ((0, 0), (10, 10))
         (Some (Node ((0, 5), (5, 10)) None None None None {|(5, 5), (3, 7)|}))
         (Some (Node ((5, 5), (10, 10)) None None None None {|(10, 10), (5, 5)|}))
         (Some (Node ((0, 0), (5, 5)) None None None None {|(5, 5), (0, 0)|}))
         (Some (Node ((5, 0), (10, 5)) None None None None {|(8, 2), (5, 5)|}))
         {||}\<rparr> =
     Some (Inr \<lparr>m_tree =
       Node ((0, 0), (10, 10))
         (Some (Node ((0, 5), (5, 10)) None None None None {|(5, 5), (3, 7)|}))
         (Some (Node ((5, 5), (10, 10)) None None None None {|(10, 10), (5, 5)|}))
         (Some (Node ((0, 0), (5, 5)) None None None None {|(5, 5), (0, 0)|}))
         (Some (Node ((5, 0), (10, 5)) None None None None {|(8, 2), (5, 5)|}))
         {||}\<rparr>)"
proof -
  have scratch: "quadrantsFromScratch gridPredicate"
    by (rule quadrantsFromScratch_rect) (simp add: gridPredicate_def)
  have run: "SearchTree2D_rebalance gridPredicate \<lparr>m_tree = fivePoints\<rparr> =
     Some (Inr \<lparr>m_tree =
       Node ((0, 0), (10, 10))
         (Some (Node ((0, 5), (5, 10)) None None None None {|(5, 5), (3, 7)|}))
         (Some (Node ((5, 5), (10, 10)) None None None None {|(10, 10), (5, 5)|}))
         (Some (Node ((0, 0), (5, 5)) None None None None {|(5, 5), (0, 0)|}))
         (Some (Node ((5, 0), (10, 5)) None None None None {|(8, 2), (5, 5)|}))
         {||}\<rparr>)"
    by (simp add: fivePoints_def gridPredicate_def run_simps eval_simps rebalance_simps)
  have enclosed: "(\<forall>v. v |\<in>| getAllChildValues (m_tree \<lparr>m_tree = fivePoints\<rparr>) \<longrightarrow>
      satisfies gridPredicate
        (buildRegionFromData gridPredicate (getAllChildValues (m_tree \<lparr>m_tree = fivePoints\<rparr>))) v) \<or>
    buildRegionFromData gridPredicate (getAllChildValues (m_tree
      \<lparr>m_tree =
       Node ((0, 0), (10, 10))
         (Some (Node ((0, 5), (5, 10)) None None None None {|(5, 5), (3, 7)|}))
         (Some (Node ((5, 5), (10, 10)) None None None None {|(10, 10), (5, 5)|}))
         (Some (Node ((0, 0), (5, 5)) None None None None {|(5, 5), (0, 0)|}))
         (Some (Node ((5, 0), (10, 5)) None None None None {|(8, 2), (5, 5)|}))
         {||}\<rparr>)) =
    buildRegionFromData gridPredicate (getAllChildValues (m_tree \<lparr>m_tree = fivePoints\<rparr>))"
    by (rule disjI1) (auto simp: fivePoints_def gridPredicate_def rect_bounds_def rect_satisfies_def)
  from rebalance_twice_same_queries[OF scratch run enclosed] scratch run
  show ?thesis by blast
qed

theorem rebalance_twice_counterexample:
  "quadrantsFromScratch halfOpenPredicate \<and>
   SearchTree2D_rebalance halfOpenPredicate
     (fold (SearchTree2D_add halfOpenPredicate) [(0, 0), (1, 1), (2, 2)]
        (SearchTree2D_new halfOpenPredicate)) =
     Some (Inr \<lparr>m_tree = Node ((0, 0), (2, 2)) None None None None {|(0, 0), (1, 1)|}\<rparr>) \<and>
   SearchTree2D_rebalance halfOpenPredicate
     \<lparr>m_tree = Node ((0, 0), (2, 2)) None None None None {|(0, 0), (1, 1)|}\<rparr> =
     Some (Inr \<lparr>m_tree = Node ((0, 0), (1, 1)) None None None None {|(0, 0)|}\<rparr>) \<and>
   SearchTree2D_getNearbyValues halfOpenPredicate
     \<lparr>m_tree = Node ((0, 0), (2, 2)) None None None None {|(0, 0), (1, 1)|}\<rparr> ((1, 1), (1, 1)) \<noteq>
   SearchTree2D_getNearbyValues halfOpenPredicate
     \<lparr>m_tree = Node ((0, 0), (1, 1)) None None None None {|(0, 0)|}\<rparr> ((1, 1), (1, 1))"
proof -
  have 0: "quadrantsFromScratch halfOpenPredicate"
    by (rule quadrantsFromScratch_rect) (simp add: halfOpenPredicate_def)
  have 1: "SearchTree2D_rebalance halfOpenPredicate
     (fold (SearchTree2D_add halfOpenPredicate) [(0, 0), (1, 1), (2, 2)]
        (SearchTree2D_new halfOpenPredicate)) =
     Some (Inr \<lparr>m_tree = Node ((0, 0), (2, 2)) None None None None {|(0, 0), (1, 1)|}\<rparr>)"
    by (auto simp: halfOpenPredicate_def halfOpen_satisfies_def run_simps eval_simps rebalance_simps)
  have 2: "SearchTree2D_rebalance halfOpenPredicate
     \<lparr>m_tree = Node ((0, 0), (2, 2)) None None None None {|(0, 0), (1, 1)|}\<rparr> =
     Some (Inr \<lparr>m_tree = Node ((0, 0), (1, 1)) None None None None {|(0, 0)|}\<rparr>)"
    by (auto simp: halfOpenPredicate_def halfOpen_satisfies_def run_simps eval_simps rebalance_simps)
  have 3: "SearchTree2D_getNearbyValues halfOpenPredicate
     \<lparr>m_tree = Node ((0, 0), (2, 2)) None None None None {|(0, 0), (1, 1)|}\<rparr> ((1, 1), (1, 1)) \<noteq>
   SearchTree2D_getNearbyValues halfOpenPredicate
     \<lparr>m_tree = Node ((0, 0), (1, 1)) None None None None {|(0, 0)|}\<rparr> ((1, 1), (1, 1))"
    by (auto simp: halfOpenPredicate_def run_simps rect_overlaps_def)
  from 0 1 2 3 show ?thesis by blast
qed

subsection \<open>Clearing keeps the root search space\<close>

lemma fold_add_leaf:
  "fold (Node_add P) vs (Node cmp None None None None dat) =
     Node cmp None None None None (dat |\<union>| fset_of_list vs)"
  by (simp add: fold_add_unfold accepts_def)

lemma m_tree_fold_add:
  "m_tree (fold (SearchTree2D_add P) vs t) = fold (Node_add P) vs (m_tree t)"
  by (induction vs arbitrary: t) (simp_all add: SearchTree2D_add_def)

lemma fold_add_more:
  "fold (SearchTree2D_add P) vs t = t\<lparr>m_tree := fold (Node_add P) vs (m_tree t)\<rparr>"
  by (induction vs arbitrary: t) (simp_all add: SearchTree2D_add_def)

lemma m_tree_update: "(t :: ('v, 'r) SearchTree2D)\<lparr>m_tree := n\<rparr> = \<lparr>m_tree = n\<rparr>"
  by (cases t) simp

text \<open>
  C10. \<^verbatim>\<open>clear\<close> leaves the root's search space as it was, where a new tree has
  \<^verbatim>\<open>nilCompare()\<close>. After the same values are added, a cleared tree answers a query
  through the old search space and a new tree through \<^verbatim>\<open>nilCompare()\<close>, and the two
  answers can differ; a rebalance makes the two trees equal.
\<close>

theorem clear_keeps_root_region:
  "m_compare (m_tree (SearchTree2D_clear t)) = m_compare (m_tree t) \<and>
   m_compare (m_tree (SearchTree2D_new P)) = nilCompare P \<and>
   SearchTree2D_getNearbyValues P (fold (SearchTree2D_add P) vs (SearchTree2D_clear t)) r =
     (if overlaps P (m_compare (m_tree t)) r then fset_of_list vs else {||}) \<and>
   SearchTree2D_getNearbyValues P (fold (SearchTree2D_add P) vs (SearchTree2D_new P)) r =
     (if overlaps P (nilCompare P) r then fset_of_list vs else {||}) \<and>
   performAll gridPredicate [Add (0, 0), Add (10, 10), Rebalance, Clear, Add (5, 5)]
       (SearchTree2D_new gridPredicate) =
     Some (Inr \<lparr>m_tree = Node ((0, 0), (10, 10)) None None None None {|(5, 5)|}\<rparr>) \<and>
   performAll gridPredicate [Add (5, 5)] (SearchTree2D_new gridPredicate) =
     Some (Inr \<lparr>m_tree = Node ((0, 0), (0, 0)) None None None None {|(5, 5)|}\<rparr>) \<and>
   SearchTree2D_getNearbyValues gridPredicate
       \<lparr>m_tree = Node ((0, 0), (10, 10)) None None None None {|(5, 5)|}\<rparr> ((4, 4), (6, 6)) = {|(5, 5)|} \<and>
   SearchTree2D_getNearbyValues gridPredicate
       \<lparr>m_tree = Node ((0, 0), (0, 0)) None None None None {|(5, 5)|}\<rparr> ((4, 4), (6, 6)) = {||} \<and>
   SearchTree2D_rebalance Q (fold (SearchTree2D_add Q) ws (SearchTree2D_clear u)) =
     SearchTree2D_rebalance Q (fold (SearchTree2D_add Q) ws (SearchTree2D_new Q))"
proof (intro conjI)
  show "m_compare (m_tree (SearchTree2D_clear t)) = m_compare (m_tree t)"
    by (simp add: SearchTree2D_clear_def Node_clear_eq)
  show "m_compare (m_tree (SearchTree2D_new P)) = nilCompare P"
    by (simp add: SearchTree2D_new_def Node_new_def)
  show "SearchTree2D_getNearbyValues P (fold (SearchTree2D_add P) vs (SearchTree2D_clear t)) r =
     (if overlaps P (m_compare (m_tree t)) r then fset_of_list vs else {||})"
    by (simp add: SearchTree2D_getNearbyValues_def m_tree_fold_add SearchTree2D_clear_def
        Node_clear_eq fold_add_leaf)
  show "SearchTree2D_getNearbyValues P (fold (SearchTree2D_add P) vs (SearchTree2D_new P)) r =
     (if overlaps P (nilCompare P) r then fset_of_list vs else {||})"
    by (simp add: SearchTree2D_getNearbyValues_def m_tree_fold_add SearchTree2D_new_def
        Node_new_def fold_add_leaf)
  show "performAll gridPredicate [Add (0, 0), Add (10, 10), Rebalance, Clear, Add (5, 5)]
       (SearchTree2D_new gridPredicate) =
     Some (Inr \<lparr>m_tree = Node ((0, 0), (10, 10)) None None None None {|(5, 5)|}\<rparr>)"
    by (simp add: gridPredicate_def run_simps eval_simps rebalance_simps)
  show "performAll gridPredicate [Add (5, 5)] (SearchTree2D_new gridPredicate) =
     Some (Inr \<lparr>m_tree = Node ((0, 0), (0, 0)) None None None None {|(5, 5)|}\<rparr>)"
    by (simp add: gridPredicate_def run_simps eval_simps)
  show "SearchTree2D_getNearbyValues gridPredicate
       \<lparr>m_tree = Node ((0, 0), (10, 10)) None None None None {|(5, 5)|}\<rparr> ((4, 4), (6, 6)) = {|(5, 5)|}"
    by (simp add: gridPredicate_def run_simps rect_overlaps_def)
  show "SearchTree2D_getNearbyValues gridPredicate
       \<lparr>m_tree = Node ((0, 0), (0, 0)) None None None None {|(5, 5)|}\<rparr> ((4, 4), (6, 6)) = {||}"
    by (simp add: gridPredicate_def run_simps rect_overlaps_def)
  have "buildRootRegion Q (m_tree (fold (SearchTree2D_add Q) ws (SearchTree2D_clear u))) =
        buildRootRegion Q (m_tree (fold (SearchTree2D_add Q) ws (SearchTree2D_new Q)))"
    by (simp add: m_tree_fold_add SearchTree2D_clear_def SearchTree2D_new_def Node_clear_eq
        Node_new_def fold_add_leaf buildRootRegion_def)
  then show "SearchTree2D_rebalance Q (fold (SearchTree2D_add Q) ws (SearchTree2D_clear u)) =
     SearchTree2D_rebalance Q (fold (SearchTree2D_add Q) ws (SearchTree2D_new Q))"
    by (simp add: SearchTree2D_rebalance_def fold_add_more SearchTree2D_clear_def
        SearchTree2D_new_def m_tree_update)
qed

subsection \<open>Operations stay inside their own object graph\<close>







































subsection \<open>Trees in the store\<close>

lemma l_addr_Node [simp]: "l_addr (Node ac ul ur ll lr dat) = fst ac"
  by (simp add: l_addr_def)


lemma stores_iff:
  "stores s (Node ac ul ur ll lr dat) \<longleftrightarrow>
     objects s (fst ac) =
        Some \<lparr>o_compare = snd ac,
              o_regions = quadMap (map_option l_addr ul) (map_option l_addr ur)
                                  (map_option l_addr ll) (map_option l_addr lr),
              o_data = dat\<rparr> \<and>
     (\<forall>c. Some c \<in> {ul, ur, ll, lr} \<longrightarrow> stores s c)"
  by (cases ul; cases ur; cases ll; cases lr; simp; blast)





lemma forRegions_gather:
  assumes "\<forall>c. Some c \<in> {ul, ur, ll, lr} \<longrightarrow> G (l_addr c) = Some (H c)"
  shows "forRegions (\<lambda>code child acc. Option.bind (G child) (\<lambda>v. Some (acc |\<union>| v)))
           (quadMap (map_option l_addr ul) (map_option l_addr ur)
                    (map_option l_addr ll) (map_option l_addr lr)) regionCodes {||} =
         Some ((case ul of None \<Rightarrow> {||} | Some c \<Rightarrow> H c) |\<union>|
               (case ur of None \<Rightarrow> {||} | Some c \<Rightarrow> H c) |\<union>|
               (case ll of None \<Rightarrow> {||} | Some c \<Rightarrow> H c) |\<union>|
               (case lr of None \<Rightarrow> {||} | Some c \<Rightarrow> H c))"
  using assms
  by (cases ul; cases ur; cases ll; cases lr; simp add: regionCodes_def quadMap_def)

lemma o_hasChildren_quadMap:
  "o_hasChildren \<lparr>o_compare = cmp, o_regions = quadMap a b c d, o_data = dat\<rparr> \<longleftrightarrow>
     a \<noteq> None \<or> b \<noteq> None \<or> c \<noteq> None \<or> d \<noteq> None"
  by (simp add: o_hasChildren_def regionCodes_def quadMap_def)

lemma erase_regions:
  "(case map_option erase region of None \<Rightarrow> {||} | Some child \<Rightarrow> H child) =
     (case region of None \<Rightarrow> {||} | Some c \<Rightarrow> H (erase c))"
  by (cases region) simp_all


lemma Store_getAllChildValues_stored:
  assumes "stores s ln"
  shows "Store_getAllChildValues s (l_addr ln) = Some (getAllChildValues (erase ln))"
  using assms
proof (induction ln)
  case (Node ac ul ur ll lr dat)
  let ?G = "Store_getAllChildValues s" and ?H = "\<lambda>c. getAllChildValues (erase c)"
  have child: "?G (l_addr c) = Some (?H c)"
    if c: "Some c \<in> {ul, ur, ll, lr}" for c
  proof -
    have st: "stores s c" using Node.prems c unfolding stores_iff by blast
    from c consider "c \<in> set_option ul" | "c \<in> set_option ur" | "c \<in> set_option ll"
      | "c \<in> set_option lr" by auto
    then show ?thesis
      by cases (rule Node.IH[OF _ st], assumption)+
  qed
  then have children: "\<forall>c. Some c \<in> {ul, ur, ll, lr} \<longrightarrow> ?G (l_addr c) = Some (?H c)"
    by blast
  from Node.prems have obj: "objects s (fst ac) =
        Some \<lparr>o_compare = snd ac,
              o_regions = quadMap (map_option l_addr ul) (map_option l_addr ur)
                                  (map_option l_addr ll) (map_option l_addr lr),
              o_data = dat\<rparr>"
    unfolding stores_iff by blast
  note gather = forRegions_gather[where G = ?G and H = ?H, OF children]
  show ?case
  proof (cases "ul \<noteq> None \<or> ur \<noteq> None \<or> ll \<noteq> None \<or> lr \<noteq> None")
    case True
    then have has: "o_hasChildren \<lparr>o_compare = snd ac,
              o_regions = quadMap (map_option l_addr ul) (map_option l_addr ur)
                                  (map_option l_addr ll) (map_option l_addr lr),
              o_data = dat\<rparr>" by (simp add: o_hasChildren_quadMap)
    show ?thesis
      apply (subst Store_getAllChildValues.simps)
      apply (simp only: l_addr_Node obj bind.simps has if_True object.simps gather)
      apply (simp only: erase.simps getAllChildValues_unfold erase_regions)
      done
  next
    case False
    then have none: "ul = None" "ur = None" "ll = None" "lr = None" by simp_all
    show ?thesis
      by (subst Store_getAllChildValues.simps)
         (simp add: obj o_hasChildren_quadMap getAllChildValues_unfold none)
  qed
qed












subsection \<open>A copy shares nothing with its original\<close>



subsection \<open>A copy and its original\<close>














end
